theory Spec2Isabelle
  imports Main
begin

section \<open>thread.hh: the coalescing wake flag (class notifiable)\<close>

text \<open>
  The class holds a mutex, a condition variable and the boolean \<open>m_wake\<close>. Every member
  function takes the mutex for its whole body, so each body is one atomic transition of
  the boolean; the only place where the mutex is released inside a body is the condition
  wait of \<open>wait()\<close>.
\<close>

record notifiable =
  m_wake :: bool

definition notifiable_new :: notifiable where
  "notifiable_new = \<lparr>m_wake = False\<rparr>"

definition notify :: "notifiable \<Rightarrow> notifiable" where
  "notify n = n\<lparr>m_wake := True\<rparr>"

text \<open>
  \<open>while (!m_wake) m_condition.wait(lock);\<close> The condition wait gives the flag back as
  it finds it unless another thread calls \<open>notify()\<close> in between, so on a flag that
  nobody signals the loop never ends: the value \<open>None\<close> is the caller staying blocked.
\<close>

partial_function (option) wait_loop :: "notifiable \<Rightarrow> notifiable option" where
  "wait_loop n = (if \<not> m_wake n then wait_loop n else Some n)"

definition wait :: "notifiable \<Rightarrow> notifiable option" where
  "wait n = (case wait_loop n of None \<Rightarrow> None | Some n' \<Rightarrow> Some (n'\<lparr>m_wake := False\<rparr>))"

definition try_wait :: "notifiable \<Rightarrow> bool \<times> notifiable" where
  "try_wait n = (let result = m_wake n in (result, n\<lparr>m_wake := False\<rparr>))"

section \<open>thread.hh: PolymorphicThread, the worker\<close>

text \<open>
  A worker owns a \<open>std::thread\<close> handle and a routine \<open>run\<close> that its subclasses
  define. The model follows one thread of execution per worker: \<open>pc\<close> is the control
  point of that thread inside \<open>run\<close>, \<open>Idle\<close> before \<open>start()\<close> and \<open>Done\<close> once
  \<open>run\<close> has returned. The other control points are the statements of the four
  \<open>run\<close> routines of the file: \<open>Entry\<close> is the first statement of the routine (and
  of the loop body), \<open>Asleep\<close> is inside \<open>sleep_for\<close>, \<open>Check\<close> is the test of
  \<open>m_interrupted\<close>, \<open>Tick\<close> the call of \<open>tick()\<close>, \<open>Pause\<close> the call of
  \<open>sleep_for(m_delay)\<close> after a tick, \<open>Delete\<close> the statement \<open>delete this\<close>.

  Two more fields are reads of the environment and not members of the class: \<open>now\<close>,
  the clock in the unit of the intervals, and \<open>wake_time\<close>, the clock value before
  which the current \<open>sleep_for\<close> does not return. The field \<open>history\<close> is a history
  variable: the thread writes down, oldest first and with the clock value, each
  \<open>sleep_for\<close> that returned, each \<open>wait()\<close> that returned, each test of the flag
  with the value it read, each invocation of \<open>tick()\<close> and the deletion. No control
  decision reads it.
\<close>

datatype location = Idle | Entry | Asleep | Check | Tick | Pause | Delete | Done

datatype action = Slept | Waited | Checked bool | Ticked | Deleted

datatype std_thread = Empty | Attached

datatype error = system_error

text \<open>
  What a call does to its caller: it returns, it blocks (for as long as the state
  stays as it is), it throws, or the process ends in \<open>std::terminate\<close>.
  \<open>Overlaps\<close> marks the one call that the single control point cannot follow: a
  second \<open>start()\<close> on a detached worker whose routine is still running.
\<close>

datatype 'a outcome = Returns 'a | Blocks | Throws error | Aborts | Overlaps

definition and_then :: "'a outcome \<Rightarrow> ('a \<Rightarrow> 'b outcome) \<Rightarrow> 'b outcome" where
  "and_then r f = (case r of Returns x \<Rightarrow> f x | Blocks \<Rightarrow> Blocks
     | Throws e \<Rightarrow> Throws e | Aborts \<Rightarrow> Aborts | Overlaps \<Rightarrow> Overlaps)"

text \<open>
  Modelled from the spec: \<open>std::thread\<close> is the execution handle of the C++ standard
  library, not part of the sources. Its \<open>join()\<close> "blocks the caller until the
  background execution completes" and "fails if the worker was never started, or was
  already joined or detached" (the error is \<open>std::system_error\<close>); \<open>detach()\<close>
  "releases ownership", after which "join() is invalid"; \<open>joinable()\<close> "reports whether
  an attached, not-yet-joined/detached execution handle exists". Move assignment onto a
  handle that is still joinable ends the process.
\<close>

definition std_thread_joinable :: "std_thread \<Rightarrow> bool" where
  "std_thread_joinable h = (h = Attached)"

definition std_thread_join :: "std_thread \<Rightarrow> bool \<Rightarrow> std_thread outcome" where
  "std_thread_join h completed =
     (if \<not> std_thread_joinable h then Throws system_error
      else if \<not> completed then Blocks
      else Returns Empty)"

definition std_thread_detach :: "std_thread \<Rightarrow> std_thread outcome" where
  "std_thread_detach h = (if \<not> std_thread_joinable h then Throws system_error else Returns Empty)"

definition std_thread_assign :: "std_thread \<Rightarrow> std_thread \<Rightarrow> std_thread outcome" where
  "std_thread_assign h new = (if std_thread_joinable h then Aborts else Returns new)"

record PolymorphicThread =
  m_thread :: std_thread
  pc :: location
  now :: nat
  wake_time :: nat
  history :: "(nat \<times> action) list"

definition start :: "'a PolymorphicThread_scheme \<Rightarrow> 'a PolymorphicThread_scheme outcome" where
  "start w =
     (if \<not> std_thread_joinable (m_thread w) \<and> pc w \<noteq> Idle \<and> pc w \<noteq> Done then Overlaps
      else and_then (std_thread_assign (m_thread w) Attached)
             (\<lambda>h. Returns (w\<lparr>m_thread := h, pc := Entry\<rparr>)))"

definition join :: "'a PolymorphicThread_scheme \<Rightarrow> 'a PolymorphicThread_scheme outcome" where
  "join w = and_then (std_thread_join (m_thread w) (pc w = Done))
              (\<lambda>h. Returns (w\<lparr>m_thread := h\<rparr>))"

definition detach :: "'a PolymorphicThread_scheme \<Rightarrow> 'a PolymorphicThread_scheme outcome" where
  "detach w = and_then (std_thread_detach (m_thread w)) (\<lambda>h. Returns (w\<lparr>m_thread := h\<rparr>))"

definition active :: "'a PolymorphicThread_scheme \<Rightarrow> bool" where
  "active w = std_thread_joinable (m_thread w)"

text \<open>The statements that the \<open>run\<close> routines share.\<close>

definition logged :: "action \<Rightarrow> 'a PolymorphicThread_scheme \<Rightarrow> 'a PolymorphicThread_scheme" where
  "logged a s = s\<lparr>history := history s @ [(now s, a)]\<rparr>"

text \<open>
  \<open>std::this_thread::sleep_for(d)\<close> blocks the thread for at least \<open>d\<close>: entering it
  fixes the earliest clock value of the return, and the return is a step of its own that
  is enabled from that clock value on.
\<close>

definition sleep_for :: "nat \<Rightarrow> 'a PolymorphicThread_scheme \<Rightarrow> 'a PolymorphicThread_scheme" where
  "sleep_for d s = s\<lparr>wake_time := now s + d, pc := Asleep\<rparr>"

definition awake :: "location \<Rightarrow> 'a PolymorphicThread_scheme \<Rightarrow> 'a PolymorphicThread_scheme option" where
  "awake nxt s = (if now s < wake_time s then None else Some (logged Slept (s\<lparr>pc := nxt\<rparr>)))"

text \<open>
  \<open>tick()\<close> is pure virtual: the model writes the invocation down and goes on. The
  tick is taken to return and to leave the members of the pulser alone.
\<close>

definition tick :: "location \<Rightarrow> 'a PolymorphicThread_scheme \<Rightarrow> 'a PolymorphicThread_scheme" where
  "tick nxt s = logged Ticked (s\<lparr>pc := nxt\<rparr>)"

definition ticks :: "'a PolymorphicThread_scheme \<Rightarrow> nat list" where
  "ticks s = map fst (filter (\<lambda>e. snd e = Ticked) (history s))"

definition actions :: "'a PolymorphicThread_scheme \<Rightarrow> action list" where
  "actions s = map snd (history s)"

section \<open>thread.hh: PulserBase, the cancellation flag\<close>

record PulserBase = PolymorphicThread +
  m_interrupted :: bool

definition interrupt :: "'a PulserBase_scheme \<Rightarrow> 'a PulserBase_scheme" where
  "interrupt p = p\<lparr>m_interrupted := True\<rparr>"

text \<open>\<open>if (m_interrupted) ... else ...\<close>: one atomic read of the flag.\<close>

definition observe :: "location \<Rightarrow> location \<Rightarrow> 'a PulserBase_scheme \<Rightarrow> 'a PulserBase_scheme" where
  "observe if_set if_clear s =
     logged (Checked (m_interrupted s)) (s\<lparr>pc := (if m_interrupted s then if_set else if_clear)\<rparr>)"

text \<open>
  The scheduler gives the thread a turn: the thread takes its following step, and a thread
  that is blocked or has finished (\<open>None\<close>) stays where it is.
\<close>

definition turn :: "('s \<Rightarrow> 's option) \<Rightarrow> 's \<Rightarrow> 's" where
  "turn run s = (case run s of None \<Rightarrow> s | Some s' \<Rightarrow> s')"

text \<open>
  What happens around a pulser, one atomic event at a time: a caller sets the flag,
  the thread takes a step of its routine, the clock advances.
\<close>

datatype event = Interrupt | Step | Elapse nat

fun fire :: "('a PulserBase_scheme \<Rightarrow> 'a PulserBase_scheme option) \<Rightarrow> event
    \<Rightarrow> 'a PulserBase_scheme \<Rightarrow> 'a PulserBase_scheme" where
  "fire run Interrupt s = interrupt s"
| "fire run Step s = turn run s"
| "fire run (Elapse d) s = s\<lparr>now := now s + d\<rparr>"

definition exec :: "('a PulserBase_scheme \<Rightarrow> 'a PulserBase_scheme option) \<Rightarrow> event list
    \<Rightarrow> 'a PulserBase_scheme \<Rightarrow> 'a PulserBase_scheme" where
  "exec run es s = fold (fire run) es s"

section \<open>thread.hh: ClockPulser\<close>

record ClockPulser = PulserBase +
  m_interval :: nat

definition ClockPulser_new :: "nat \<Rightarrow> nat \<Rightarrow> ClockPulser" where
  "ClockPulser_new clock interval =
     \<lparr>m_thread = Empty, pc = Idle, now = clock, wake_time = 0, history = [],
      m_interrupted = False, m_interval = interval\<rparr>"

text \<open>
  \<open>while (true) { sleep_for(m_interval); if (m_interrupted) break; tick(); }\<close>
\<close>

definition ClockPulser_run :: "'a ClockPulser_scheme \<Rightarrow> 'a ClockPulser_scheme option" where
  "ClockPulser_run s = (case pc s of
       Entry \<Rightarrow> Some (sleep_for (m_interval s) s)
     | Asleep \<Rightarrow> awake Check s
     | Check \<Rightarrow> Some (observe Done Tick s)
     | Tick \<Rightarrow> Some (tick Entry s)
     | _ \<Rightarrow> None)"

section \<open>thread.hh: NotifiedPulser and DelayedNotifiedPulser\<close>

record NotifiedPulser = PulserBase +
  m_notifiablelock :: notifiable

definition NotifiedPulser_new :: "nat \<Rightarrow> NotifiedPulser" where
  "NotifiedPulser_new clock =
     \<lparr>m_thread = Empty, pc = Idle, now = clock, wake_time = 0, history = [],
      m_interrupted = False, m_notifiablelock = notifiable_new\<rparr>"

definition wakeup :: "'a NotifiedPulser_scheme \<Rightarrow> 'a NotifiedPulser_scheme" where
  "wakeup p = p\<lparr>m_notifiablelock := notify (m_notifiablelock p)\<rparr>"

definition kill :: "'a NotifiedPulser_scheme \<Rightarrow> 'a NotifiedPulser_scheme" where
  "kill p = wakeup (interrupt p)"

text \<open>\<open>m_notifiablelock.wait()\<close> as a step of the thread: blocked while the flag is down.\<close>

definition await :: "location \<Rightarrow> 'a NotifiedPulser_scheme \<Rightarrow> 'a NotifiedPulser_scheme option" where
  "await nxt s = (case wait (m_notifiablelock s) of
       None \<Rightarrow> None
     | Some l \<Rightarrow> Some (logged Waited (s\<lparr>m_notifiablelock := l, pc := nxt\<rparr>)))"

text \<open>
  \<open>for (;;) { m_notifiablelock.wait(); if (m_interrupted) break; tick(); }\<close>
\<close>

definition NotifiedPulser_run :: "'a NotifiedPulser_scheme \<Rightarrow> 'a NotifiedPulser_scheme option" where
  "NotifiedPulser_run s = (case pc s of
       Entry \<Rightarrow> await Check s
     | Check \<Rightarrow> Some (observe Done Tick s)
     | Tick \<Rightarrow> Some (tick Entry s)
     | _ \<Rightarrow> None)"

record DelayedNotifiedPulser = NotifiedPulser +
  m_delay :: nat

definition DelayedNotifiedPulser_new :: "nat \<Rightarrow> nat \<Rightarrow> DelayedNotifiedPulser" where
  "DelayedNotifiedPulser_new clock delay =
     \<lparr>m_thread = Empty, pc = Idle, now = clock, wake_time = 0, history = [],
      m_interrupted = False, m_notifiablelock = notifiable_new, m_delay = delay\<rparr>"

text \<open>
  \<open>for (;;) { m_notifiablelock.wait(); if (m_interrupted) break; tick();
  sleep_for(m_delay); }\<close>
\<close>

definition DelayedNotifiedPulser_run ::
    "'a DelayedNotifiedPulser_scheme \<Rightarrow> 'a DelayedNotifiedPulser_scheme option" where
  "DelayedNotifiedPulser_run s = (case pc s of
       Entry \<Rightarrow> await Check s
     | Check \<Rightarrow> Some (observe Done Tick s)
     | Tick \<Rightarrow> Some (tick Pause s)
     | Pause \<Rightarrow> Some (sleep_for (m_delay s) s)
     | Asleep \<Rightarrow> awake Entry s
     | _ \<Rightarrow> None)"

text \<open>The events around a notified pulser: producers may also call \<open>wakeup()\<close>.\<close>

datatype nevent = NInterrupt | NWakeup | NStep | NElapse nat

fun nfire :: "('a NotifiedPulser_scheme \<Rightarrow> 'a NotifiedPulser_scheme option) \<Rightarrow> nevent
    \<Rightarrow> 'a NotifiedPulser_scheme \<Rightarrow> 'a NotifiedPulser_scheme" where
  "nfire run NInterrupt s = interrupt s"
| "nfire run NWakeup s = wakeup s"
| "nfire run NStep s = turn run s"
| "nfire run (NElapse d) s = s\<lparr>now := now s + d\<rparr>"

definition nexec :: "('a NotifiedPulser_scheme \<Rightarrow> 'a NotifiedPulser_scheme option) \<Rightarrow> nevent list
    \<Rightarrow> 'a NotifiedPulser_scheme \<Rightarrow> 'a NotifiedPulser_scheme" where
  "nexec run es s = fold (nfire run) es s"

section \<open>thread.hh: SelfDeletingTimer\<close>

text \<open>
  The callback is a \<open>std::function\<close> that \<open>tick()\<close> calls; as for every tick the model
  writes the invocation down. \<open>deleted\<close> is set by \<open>delete this\<close>; the members of a
  deleted timer are gone, so a caller that touches it afterwards has no defined result
  (\<open>None\<close> below).
\<close>

record SelfDeletingTimer = PulserBase +
  m_interval :: nat
  deleted :: bool

definition factory :: "nat \<Rightarrow> nat \<Rightarrow> SelfDeletingTimer" where
  "factory clock interval =
     \<lparr>m_thread = Empty, pc = Idle, now = clock, wake_time = 0, history = [],
      m_interrupted = False, m_interval = interval, deleted = False\<rparr>"

text \<open>\<open>sleep_for(m_interval); if (!m_interrupted) tick(); delete this;\<close>\<close>

definition SelfDeletingTimer_run :: "'a SelfDeletingTimer_scheme \<Rightarrow> 'a SelfDeletingTimer_scheme option" where
  "SelfDeletingTimer_run s = (case pc s of
       Entry \<Rightarrow> Some (sleep_for (m_interval s) s)
     | Asleep \<Rightarrow> awake Check s
     | Check \<Rightarrow> Some (observe Delete Tick s)
     | Tick \<Rightarrow> Some (tick Delete s)
     | Delete \<Rightarrow> Some (logged Deleted (s\<lparr>deleted := True, pc := Done\<rparr>))
     | _ \<Rightarrow> None)"

text \<open>\<open>PolymorphicThread::start(); PolymorphicThread::detach();\<close>\<close>

definition SelfDeletingTimer_start :: "'a SelfDeletingTimer_scheme \<Rightarrow> 'a SelfDeletingTimer_scheme outcome" where
  "SelfDeletingTimer_start t = and_then (start t) detach"

fun tfire :: "event \<Rightarrow> 'a SelfDeletingTimer_scheme \<Rightarrow> 'a SelfDeletingTimer_scheme option" where
  "tfire Interrupt s = (if deleted s then None else Some (interrupt s))"
| "tfire Step s = Some (turn SelfDeletingTimer_run s)"
| "tfire (Elapse d) s = Some (s\<lparr>now := now s + d\<rparr>)"

fun texec :: "event list \<Rightarrow> 'a SelfDeletingTimer_scheme \<Rightarrow> 'a SelfDeletingTimer_scheme option" where
  "texec [] s = Some s"
| "texec (e # es) s = (case tfire e s of None \<Rightarrow> None | Some s' \<Rightarrow> texec es s')"

section \<open>thread.hh: what a history may look like\<close>

text \<open>
  The shape of the history of a looping pulser, oldest action first. Every iteration
  starts with its trigger \<open>trig\<close> (the return of the sleep for the clock pulser, the
  return of \<open>wait()\<close> for the notified ones), then comes the test of the flag; after a
  test that read false the only action that may follow is the tick, after which the
  next iteration starts; after a test that read true nothing follows.
\<close>

fun iterations :: "action \<Rightarrow> action list \<Rightarrow> bool" where
  "iterations trig [] = True"
| "iterations trig [a] = (a = trig)"
| "iterations trig [a, c] = (a = trig \<and> (c = Checked True \<or> c = Checked False))"
| "iterations trig (a # c # t # rest) =
     (a = trig \<and> c = Checked False \<and> t = Ticked \<and> iterations trig rest)"

text \<open>The same for the delayed pulser, whose iterations end with the return of a sleep.\<close>

fun delayed_iterations :: "action list \<Rightarrow> bool" where
  "delayed_iterations [] = True"
| "delayed_iterations [a] = (a = Waited)"
| "delayed_iterations [a, c] = (a = Waited \<and> (c = Checked True \<or> c = Checked False))"
| "delayed_iterations [a, c, t] = (a = Waited \<and> c = Checked False \<and> t = Ticked)"
| "delayed_iterations (a # c # t # z # rest) =
     (a = Waited \<and> c = Checked False \<and> t = Ticked \<and> z = Slept \<and> delayed_iterations rest)"

text \<open>
  \<open>rested D h\<close>: whatever the thread does after a tick, it does at least \<open>D\<close> after the
  invocation of that tick. \<open>spaced D ts\<close>: consecutive clock values of \<open>ts\<close> are at
  least \<open>D\<close> apart.
\<close>

fun rested :: "nat \<Rightarrow> (nat \<times> action) list \<Rightarrow> bool" where
  "rested D [] = True"
| "rested D (e # h) =
     ((snd e = Ticked \<longrightarrow> list_all (\<lambda>e'. fst e + D \<le> fst e') h) \<and> rested D h)"

fun spaced :: "nat \<Rightarrow> nat list \<Rightarrow> bool" where
  "spaced D (t # t' # ts) = (t + D \<le> t' \<and> spaced D (t' # ts))"
| "spaced D ts = True"

text \<open>
  Schedules. \<open>steps es\<close> is the number of turns the thread is given during \<open>es\<close>,
  \<open>elapsed es\<close> the time that passes. A round is what happens between one call of
  \<open>wakeup()\<close> and the next; it is \<open>paced\<close> when it holds no further \<open>wakeup()\<close> and
  no \<open>interrupt()\<close>, and gives the thread the three turns (or more) in which it
  consumes the wakeup, tests the flag and ticks. \<open>wakeup_rounds rs\<close> is the schedule of
  one \<open>wakeup()\<close> per round of \<open>rs\<close>, each followed by its round. \<open>pending s\<close> counts
  the wakeup that the flag holds.
\<close>

definition steps :: "nevent list \<Rightarrow> nat" where
  "steps es = length (filter (\<lambda>e. e = NStep) es)"

definition paced :: "nevent list \<Rightarrow> bool" where
  "paced r = (list_all (\<lambda>e. e \<noteq> NWakeup \<and> e \<noteq> NInterrupt) r \<and> 3 \<le> steps r)"

definition wakeup_rounds :: "nevent list list \<Rightarrow> nevent list" where
  "wakeup_rounds rs = concat (map (\<lambda>r. NWakeup # r) rs)"

definition pending :: "'a NotifiedPulser_scheme \<Rightarrow> nat" where
  "pending s = (if m_wake (m_notifiablelock s) then 1 else 0)"

fun elapsed :: "event list \<Rightarrow> nat" where
  "elapsed [] = 0"
| "elapsed (Elapse d # es) = d + elapsed es"
| "elapsed (e # es) = elapsed es"

section \<open>thread.hh: invariants used in the proofs\<close>

text \<open>
  \<open>leaving\<close>: the flag is set and a wakeup is pending wherever the loop still needs
  one; from such a state the loop only moves towards its exit, \<open>distance\<close> counting the
  turns it still takes. \<open>looping\<close>: the thread is somewhere in the notified loop.
\<close>

definition leaving :: "'a NotifiedPulser_scheme \<Rightarrow> bool" where
  "leaving s = (m_interrupted s
     \<and> (pc s = Done \<or> pc s = Check \<or> ((pc s = Entry \<or> pc s = Tick) \<and> m_wake (m_notifiablelock s))))"

definition distance :: "'a NotifiedPulser_scheme \<Rightarrow> nat" where
  "distance s = (case pc s of Tick \<Rightarrow> 3 | Entry \<Rightarrow> 2 | Check \<Rightarrow> 1 | _ \<Rightarrow> 0)"

definition looping :: "'a NotifiedPulser_scheme \<Rightarrow> bool" where
  "looping s = (pc s = Entry \<or> pc s = Check \<or> pc s = Tick \<or> pc s = Done)"

text \<open>
  \<open>cycles trig k\<close> is the history of \<open>k\<close> complete iterations that ticked, and
  \<open>shaped trig l acts\<close> says that \<open>acts\<close> is such a history followed by what the
  current iteration has done when the thread stands at \<open>l\<close>.
\<close>

definition cycles :: "action \<Rightarrow> nat \<Rightarrow> action list" where
  "cycles trig k = concat (replicate k [trig, Checked False, Ticked])"

definition shaped :: "action \<Rightarrow> location \<Rightarrow> action list \<Rightarrow> bool" where
  "shaped trig l acts = (\<exists>k. acts = cycles trig k @
     (case l of Check \<Rightarrow> [trig] | Tick \<Rightarrow> [trig, Checked False]
        | Done \<Rightarrow> [trig, Checked True] | _ \<Rightarrow> []))"



text \<open>
  \<open>dcycles k\<close> and \<open>dshaped l acts\<close>: as \<open>cycles\<close> and \<open>shaped\<close>, for iterations
  that end with the return of the sleep after the tick.
\<close>

definition dcycles :: "nat \<Rightarrow> action list" where
  "dcycles k = concat (replicate k [Waited, Checked False, Ticked, Slept])"

definition dshaped :: "location \<Rightarrow> action list \<Rightarrow> bool" where
  "dshaped l acts = (\<exists>k. acts = dcycles k @
     (case l of Check \<Rightarrow> [Waited] | Tick \<Rightarrow> [Waited, Checked False]
        | Pause \<Rightarrow> [Waited, Checked False, Ticked] | Asleep \<Rightarrow> [Waited, Checked False, Ticked]
        | Done \<Rightarrow> [Waited, Checked True] | _ \<Rightarrow> []))"

text \<open>
  \<open>resting D s\<close>: the history is rested, and every tick in it lies far enough back for
  the next action of the thread, whichever it is, to be rested too.
\<close>

definition resting :: "nat \<Rightarrow> 'a PolymorphicThread_scheme \<Rightarrow> bool" where
  "resting D s = (rested D (history s)
     \<and> (case pc s of Pause \<Rightarrow> list_all (\<lambda>t. t \<le> now s) (ticks s)
          | Asleep \<Rightarrow> list_all (\<lambda>t. t + D \<le> wake_time s) (ticks s)
          | _ \<Rightarrow> list_all (\<lambda>t. t + D \<le> now s) (ticks s)))"

text \<open>
  \<open>budget s\<close>: a bound on the ticks still to come if no further wakeup arrives: the one
  the thread is about to invoke, and the one that a pending wakeup stands for.
\<close>

definition budget :: "'a NotifiedPulser_scheme \<Rightarrow> nat" where
  "budget s = (if pc s = Check \<or> pc s = Tick then 1 else 0)
     + (if m_wake (m_notifiablelock s) then 1 else 0)"

text \<open>
  \<open>serving n s\<close>: an uninterrupted loop that had ticked \<open>n\<close> times when its wakeup
  arrived is on its way through the iteration that the wakeup pays for, or has finished
  it and is back at its wait with nothing pending; \<open>todo\<close> counts the turns this
  still takes.
\<close>

definition serving :: "nat \<Rightarrow> 'a NotifiedPulser_scheme \<Rightarrow> bool" where
  "serving n s = (\<not> m_interrupted s
     \<and> (pc s = Entry \<and> m_wake (m_notifiablelock s) \<and> length (ticks s) = n
        \<or> pc s = Check \<and> \<not> m_wake (m_notifiablelock s) \<and> length (ticks s) = n
        \<or> pc s = Tick \<and> \<not> m_wake (m_notifiablelock s) \<and> length (ticks s) = n
        \<or> pc s = Entry \<and> \<not> m_wake (m_notifiablelock s) \<and> length (ticks s) = Suc n))"

definition todo :: "'a NotifiedPulser_scheme \<Rightarrow> nat" where
  "todo s = (case pc s of Entry \<Rightarrow> if m_wake (m_notifiablelock s) then 3 else 0
     | Check \<Rightarrow> 2 | Tick \<Rightarrow> 1 | _ \<Rightarrow> 0)"

text \<open>
  \<open>timing T t0 s\<close>: where a timer started at clock value \<open>t0\<close> with interval \<open>T\<close> can
  stand, and what its history then is. \<open>quiet s\<close>: the flag was set before the test;
  no callback has been invoked, and none will be.
\<close>

definition timing :: "nat \<Rightarrow> nat \<Rightarrow> 'a SelfDeletingTimer_scheme \<Rightarrow> bool" where
  "timing T t0 s = (m_interval s = T \<and> t0 \<le> now s \<and> (deleted s \<longleftrightarrow> pc s = Done)
     \<and> (case pc s of
          Entry \<Rightarrow> history s = []
        | Asleep \<Rightarrow> history s = [] \<and> t0 + T \<le> wake_time s \<and> wake_time s \<le> now s + T
        | Check \<Rightarrow> actions s = [Slept] \<and> ticks s = [] \<and> t0 + T \<le> now s
        | Tick \<Rightarrow> actions s = [Slept, Checked False] \<and> ticks s = [] \<and> t0 + T \<le> now s
        | Delete \<Rightarrow> t0 + T \<le> now s
            \<and> (actions s = [Slept, Checked False, Ticked]
                  \<and> (\<exists>t. ticks s = [t] \<and> t0 + T \<le> t)
                \<or> actions s = [Slept, Checked True] \<and> ticks s = [] \<and> m_interrupted s)
        | Done \<Rightarrow> t0 + T \<le> now s
            \<and> (actions s = [Slept, Checked False, Ticked, Deleted]
                  \<and> (\<exists>t. ticks s = [t] \<and> t0 + T \<le> t)
                \<or> actions s = [Slept, Checked True, Deleted] \<and> ticks s = [] \<and> m_interrupted s)
        | _ \<Rightarrow> False))"

definition quiet :: "'a SelfDeletingTimer_scheme \<Rightarrow> bool" where
  "quiet s = (m_interrupted s \<and> ticks s = []
     \<and> (pc s = Entry \<or> pc s = Asleep \<or> pc s = Check \<or> pc s = Delete \<or> pc s = Done))"

text \<open>
  \<open>awake_by s\<close>: the sleep has been entered and its time has passed, so that every turn
  of the thread is a step; \<open>remaining\<close> bounds the turns until the routine has returned.
\<close>

definition awake_by :: "'a SelfDeletingTimer_scheme \<Rightarrow> bool" where
  "awake_by s = (pc s \<noteq> Entry \<and> (pc s = Asleep \<longrightarrow> wake_time s \<le> now s))"

definition remaining :: "'a SelfDeletingTimer_scheme \<Rightarrow> nat" where
  "remaining s = (case pc s of Entry \<Rightarrow> 5 | Asleep \<Rightarrow> 4 | Check \<Rightarrow> 3 | Tick \<Rightarrow> 2
     | Delete \<Rightarrow> 1 | _ \<Rightarrow> 0)"

section \<open>unionfind.hh: UnionFind\<close>

text \<open>
  The container maps an element to its father; an element without an entry is a root.
  The structure is built by the default constructor (the empty container) and changed
  by \<open>find\<close> and \<open>merge\<close> only.
\<close>

record 'a UnionFind =
  m_mapping :: "'a \<rightharpoonup> 'a"

definition UnionFind_new :: "'a UnionFind" where
  "UnionFind_new = \<lparr>m_mapping = Map.empty\<rparr>"

text \<open>
  \<open>try { T& ra = m_mapping.at(a); ra = this->find(ra); return ra; }
  catch (const std::out_of_range&) { return a; }\<close>
  The recursive call rewrites fathers on its way, then the entry of \<open>a\<close> is set to
  the root. The recursion follows the fathers and has no bound of its own: \<open>None\<close> is
  a call that does not return.
\<close>

partial_function (option) UnionFind_find :: "'a UnionFind \<Rightarrow> 'a \<Rightarrow> ('a \<times> 'a UnionFind) option" where
  "UnionFind_find u a = (case m_mapping u a of
       None \<Rightarrow> Some (a, u)
     | Some ra \<Rightarrow> Option.bind (UnionFind_find u ra)
         (\<lambda>(r, u'). Some (r, u'\<lparr>m_mapping := (m_mapping u')(a \<mapsto> r)\<rparr>)))"

text \<open>\<open>emplace\<close> of the standard maps inserts only where the key has no entry yet.\<close>

definition emplace :: "('k \<rightharpoonup> 'v) \<Rightarrow> 'k \<Rightarrow> 'v \<Rightarrow> ('k \<rightharpoonup> 'v)" where
  "emplace m k v = (case m k of None \<Rightarrow> m(k \<mapsto> v) | Some _ \<Rightarrow> m)"

definition UnionFind_merge :: "'a UnionFind \<Rightarrow> 'a \<Rightarrow> 'a \<Rightarrow> 'a UnionFind option" where
  "UnionFind_merge u a b =
     Option.bind (UnionFind_find u a) (\<lambda>(ra, u1).
     Option.bind (UnionFind_find u1 b) (\<lambda>(rb, u2).
       Some (if ra \<noteq> rb then u2\<lparr>m_mapping := emplace (m_mapping u2) rb ra\<rparr> else u2)))"

text \<open>The root that \<open>find\<close> returns, and a caller's sequence of calls on one structure.\<close>

definition root :: "'a UnionFind \<Rightarrow> 'a \<Rightarrow> 'a option" where
  "root u a = map_option fst (UnionFind_find u a)"

datatype 'a uf_call = Find 'a | Merge 'a 'a

fun uf_apply :: "'a uf_call \<Rightarrow> 'a UnionFind \<Rightarrow> 'a UnionFind option" where
  "uf_apply (Find a) u = map_option snd (UnionFind_find u a)"
| "uf_apply (Merge a b) u = UnionFind_merge u a b"

fun uf_calls :: "'a uf_call list \<Rightarrow> 'a UnionFind \<Rightarrow> 'a UnionFind option" where
  "uf_calls [] u = Some u"
| "uf_calls (c # cs) u = Option.bind (uf_apply c u) (uf_calls cs)"

fun merged :: "'a uf_call \<Rightarrow> 'a set" where
  "merged (Find a) = {}"
| "merged (Merge a b) = {a, b}"

text \<open>
  The root of an element as a relation on the container, for the proofs: an element
  without an entry is its own root, any other element has the root of its father.
\<close>

inductive root_of :: "('a \<rightharpoonup> 'a) \<Rightarrow> 'a \<Rightarrow> 'a \<Rightarrow> bool" for m :: "'a \<rightharpoonup> 'a" where
  here: "m a = None \<Longrightarrow> root_of m a a"
| up: "m a = Some p \<Longrightarrow> root_of m p r \<Longrightarrow> root_of m a r"

definition rooted :: "'a UnionFind \<Rightarrow> bool" where
  "rooted u = (\<forall>a. \<exists>r. root_of (m_mapping u) a r)"

definition within :: "'a set \<Rightarrow> ('a \<rightharpoonup> 'a) \<Rightarrow> bool" where
  "within S m = (\<forall>x p. m x = Some p \<longrightarrow> x \<in> S \<and> p \<in> S)"

text \<open>A container that differs from \<open>m\<close> only in entries redirected to the root of their key.\<close>

definition shortens :: "('a \<rightharpoonup> 'a) \<Rightarrow> ('a \<rightharpoonup> 'a) \<Rightarrow> bool" where
  "shortens m m' = (\<forall>x. m' x = m x \<or> (\<exists>r. m x \<noteq> None \<and> root_of m x r \<and> m' x = Some r))"

section \<open>The singleton helper (class Singleton)\<close>

text \<open>
  The static \<open>std::unique_ptr<T> _singleton\<close> is the whole state: \<open>None\<close> is the null
  pointer. \<open>init\<close> is given the object that \<open>new T(args...)\<close> has built.
\<close>

record 'a Singleton =
  singleton :: "'a option"

datatype runtime_error = runtime_error string

definition Singleton_static :: "'a Singleton" where
  "Singleton_static = \<lparr>singleton = None\<rparr>"

definition Singleton_init :: "'a \<Rightarrow> 'a Singleton \<Rightarrow> 'a \<times> 'a Singleton" where
  "Singleton_init obj s = (obj, s\<lparr>singleton := Some obj\<rparr>)"

definition Singleton_get :: "'a Singleton \<Rightarrow> runtime_error + 'a" where
  "Singleton_get s = (case singleton s of
       None \<Rightarrow> Inl (runtime_error ''ERROR: Access to unitialized object.'')
     | Some obj \<Rightarrow> Inr obj)"

definition Singleton_initialized :: "'a Singleton \<Rightarrow> bool" where
  "Singleton_initialized s = (singleton s \<noteq> None)"

definition Singleton_kill :: "'a Singleton \<Rightarrow> 'a Singleton" where
  "Singleton_kill s = s\<lparr>singleton := None\<rparr>"

datatype 'a singleton_call = Init 'a | Get | Initialized | Kill

fun singleton_apply :: "'a singleton_call \<Rightarrow> 'a Singleton \<Rightarrow> 'a Singleton" where
  "singleton_apply (Init obj) s = snd (Singleton_init obj s)"
| "singleton_apply Get s = s"
| "singleton_apply Initialized s = s"
| "singleton_apply Kill s = Singleton_kill s"

fun is_Init :: "'a singleton_call \<Rightarrow> bool" where
  "is_Init (Init obj) = True"
| "is_Init c = False"

text \<open>
  The condition in the words of the claim: \<open>init()\<close> was never called, or \<open>kill()\<close>
  was called since the last \<open>init()\<close>. The calls are listed oldest first.
\<close>

definition since_last_init :: "'a singleton_call list \<Rightarrow> 'a singleton_call list" where
  "since_last_init cs = rev (takeWhile (\<lambda>c. \<not> is_Init c) (rev cs))"

definition no_instance :: "'a singleton_call list \<Rightarrow> bool" where
  "no_instance cs = (\<not> list_ex is_Init cs \<or> list_ex (\<lambda>c. c = Kill) (since_last_init cs))"

section \<open>Facts about the wake flag\<close>

lemma wait_loop_returns_signaled:
  assumes "wait_loop n = Some n'"
  shows "m_wake n"
proof (rule wait_loop.raw_induct [where P = "\<lambda>n n'. m_wake n", OF _ assms])
  fix loop :: "notifiable \<Rightarrow> notifiable option" and n n' :: notifiable
  assume "\<And>n n'. loop n = Some n' \<Longrightarrow> m_wake n"
    and "(if \<not> m_wake n then loop n else Some n) = Some n'"
  then show "m_wake n" by (cases "m_wake n") auto
qed

lemma wait_loop_eq: "wait_loop n = (if m_wake n then Some n else None)"
proof (cases "m_wake n")
  case True
  then show ?thesis by (subst wait_loop.simps) simp
next
  case False
  have "wait_loop n = None"
  proof (cases "wait_loop n")
    case (Some n')
    with False wait_loop_returns_signaled show ?thesis by blast
  qed simp
  with False show ?thesis by simp
qed

lemma wait_eq: "wait n = (if m_wake n then Some (n\<lparr>m_wake := False\<rparr>) else None)"
  by (simp add: wait_def wait_loop_eq)

lemma notify_funpow: "0 < N \<Longrightarrow> (notify ^^ N) n = notify n"
  by (induction N) (auto simp: notify_def)

text \<open>
  C1. Any number \<open>N \<ge> 1\<close> of \<open>notify()\<close> calls followed by one \<open>wait()\<close>: the wait
  returns, it leaves the flag exactly as one single notify followed by a wait would
  (the N signals are one pending wakeup), the flag is reset to unsignaled on return,
  and a second wait (and a try_wait) right after finds nothing: the wait blocks.
\<close>

theorem notifiable_signals_coalesce:
  assumes "1 \<le> N"
  shows "\<exists>n'. wait ((notify ^^ N) n) = Some n'
            \<and> wait ((notify ^^ N) n) = wait (notify n)
            \<and> \<not> m_wake n'
            \<and> wait n' = None
            \<and> fst (try_wait n') = False"
  using assms by (simp add: notify_funpow wait_eq notify_def try_wait_def)

theorem notifiable_signals_coalesce_witness:
  "(1::nat) \<le> 3 \<and> (\<exists>n'. wait ((notify ^^ 3) notifiable_new) = Some n'
            \<and> wait ((notify ^^ 3) notifiable_new) = wait (notify notifiable_new)
            \<and> \<not> m_wake n'
            \<and> wait n' = None
            \<and> fst (try_wait n') = False)"
  using notifiable_signals_coalesce [of 3 notifiable_new] by simp


section \<open>Facts about workers and the cancellation flag\<close>

lemmas statement_defs = sleep_for_def awake_def observe_def tick_def logged_def await_def


lemma join_eq:
  "join w = (if m_thread w \<noteq> Attached then Throws system_error
             else if pc w \<noteq> Done then Blocks else Returns (w\<lparr>m_thread := Empty\<rparr>))"
  by (simp add: join_def and_then_def std_thread_join_def std_thread_joinable_def)

lemma detach_eq:
  "detach w = (if m_thread w \<noteq> Attached then Throws system_error
               else Returns (w\<lparr>m_thread := Empty\<rparr>))"
  by (simp add: detach_def and_then_def std_thread_detach_def std_thread_joinable_def)

lemma start_eq:
  "start w = (if m_thread w = Attached then Aborts
              else if pc w \<noteq> Idle \<and> pc w \<noteq> Done then Overlaps
              else Returns (w\<lparr>m_thread := Attached, pc := Entry\<rparr>))"
  by (simp add: start_def and_then_def std_thread_assign_def std_thread_joinable_def)


lemma nexec_append: "nexec run (es @ es') s = nexec run es' (nexec run es s)"
  by (simp add: nexec_def)

lemma exec_Cons: "exec run (e # es) s = exec run es (fire run e s)"
  by (simp add: exec_def)

lemma nexec_Cons: "nexec run (e # es) s = nexec run es (nfire run e s)"
  by (simp add: nexec_def)

lemma exec_Nil: "exec run [] s = s"
  by (simp add: exec_def)

lemma nexec_Nil: "nexec run [] s = s"
  by (simp add: nexec_def)

lemma texec_append:
  "texec (es @ es') s = (case texec es s of None \<Rightarrow> None | Some s' \<Rightarrow> texec es' s')"
  by (induction es arbitrary: s) (auto split: option.splits)

lemma ClockPulser_run_flag:
  "ClockPulser_run s = Some s' \<Longrightarrow> m_interrupted s' = m_interrupted s"
  by (auto simp: ClockPulser_run_def statement_defs split: location.splits if_splits)

lemma NotifiedPulser_run_flag:
  "NotifiedPulser_run s = Some s' \<Longrightarrow> m_interrupted s' = m_interrupted s"
  by (auto simp: NotifiedPulser_run_def statement_defs split: location.splits if_splits option.splits)

lemma DelayedNotifiedPulser_run_flag:
  "DelayedNotifiedPulser_run s = Some s' \<Longrightarrow> m_interrupted s' = m_interrupted s"
  by (auto simp: DelayedNotifiedPulser_run_def statement_defs
      split: location.splits if_splits option.splits)

lemma SelfDeletingTimer_run_flag:
  "SelfDeletingTimer_run s = Some s' \<Longrightarrow> m_interrupted s' = m_interrupted s"
  by (auto simp: SelfDeletingTimer_run_def statement_defs split: location.splits if_splits)

lemma fire_keeps_flag:
  assumes "\<And>s s'. run s = Some s' \<Longrightarrow> m_interrupted s' = m_interrupted s"
    and "m_interrupted s"
  shows "m_interrupted (fire run e s)"
proof (cases e)
  case Step
  with assms show ?thesis by (auto simp: turn_def split: option.splits)
qed (use assms(2) in \<open>simp_all add: interrupt_def\<close>)

lemma exec_keeps_flag:
  assumes "\<And>s s'. run s = Some s' \<Longrightarrow> m_interrupted s' = m_interrupted s"
    and "m_interrupted s"
  shows "m_interrupted (exec run es s)"
  using assms(2)
proof (induction es arbitrary: s)
  case Nil
  then show ?case by (simp add: exec_Nil)
next
  case (Cons e es)
  have "m_interrupted (fire run e s)"
    using assms(1) Cons.prems by (rule fire_keeps_flag)
  then show ?case by (simp add: exec_Cons Cons.IH)
qed

lemma nfire_keeps_flag:
  assumes "\<And>s s'. run s = Some s' \<Longrightarrow> m_interrupted s' = m_interrupted s"
    and "m_interrupted s"
  shows "m_interrupted (nfire run e s)"
proof (cases e)
  case NStep
  with assms show ?thesis by (auto simp: turn_def split: option.splits)
qed (use assms(2) in \<open>simp_all add: interrupt_def wakeup_def\<close>)

lemma nexec_keeps_flag:
  assumes "\<And>s s'. run s = Some s' \<Longrightarrow> m_interrupted s' = m_interrupted s"
    and "m_interrupted s"
  shows "m_interrupted (nexec run es s)"
  using assms(2)
proof (induction es arbitrary: s)
  case Nil
  then show ?case by (simp add: nexec_Nil)
next
  case (Cons e es)
  have "m_interrupted (nfire run e s)"
    using assms(1) Cons.prems by (rule nfire_keeps_flag)
  then show ?case by (simp add: nexec_Cons Cons.IH)
qed

lemma tfire_keeps_flag: "tfire e s = Some s' \<Longrightarrow> m_interrupted s \<Longrightarrow> m_interrupted s'"
  by (cases e)
     (auto simp: interrupt_def turn_def split: option.splits if_splits
       dest: SelfDeletingTimer_run_flag)

lemma texec_keeps_flag: "texec es s = Some s' \<Longrightarrow> m_interrupted s \<Longrightarrow> m_interrupted s'"
proof (induction es arbitrary: s)
  case Nil
  then show ?case by simp
next
  case (Cons e es)
  then show ?case by (auto split: option.splits dest: tfire_keeps_flag)
qed

lemma interrupt_funpow: "(interrupt ^^ Suc n) p = interrupt p"
  by (induction n) (simp_all add: interrupt_def)

lemma worker_calls_keep_flag:
  fixes p :: "'a PulserBase_scheme"
  shows "start p = Returns p' \<Longrightarrow> m_interrupted p' = m_interrupted p"
    and "join p = Returns p' \<Longrightarrow> m_interrupted p' = m_interrupted p"
    and "detach p = Returns p' \<Longrightarrow> m_interrupted p' = m_interrupted p"
  by (auto simp: start_eq join_eq detach_eq split: if_splits)

text \<open>
  C7. The cancellation flag of every pulser is false after construction; \<open>interrupt()\<close>
  and \<open>kill()\<close> leave it true; \<open>interrupt()\<close> called once more, any number of times,
  changes nothing; and a flag that is true stays true through every call of the
  interface (\<open>interrupt\<close>, \<open>wakeup\<close>, \<open>kill\<close>, \<open>start\<close>, \<open>join\<close>, \<open>detach\<close>) and
  every run of events of each of the four pulsers: nothing resets it.
\<close>

theorem cancellation_flag_monotonic:
  fixes p :: "'a PulserBase_scheme" and q :: "'b NotifiedPulser_scheme"
    and c :: "'c ClockPulser_scheme" and d :: "'d DelayedNotifiedPulser_scheme"
    and t :: "'e SelfDeletingTimer_scheme"
  shows "\<not> m_interrupted (ClockPulser_new clock i) \<and> \<not> m_interrupted (NotifiedPulser_new clock)
    \<and> \<not> m_interrupted (DelayedNotifiedPulser_new clock i) \<and> \<not> m_interrupted (factory clock i)
    \<and> m_interrupted (interrupt p) \<and> m_interrupted (kill q)
    \<and> (interrupt ^^ Suc n) p = interrupt p
    \<and> (m_interrupted q \<longrightarrow> m_interrupted (wakeup q))
    \<and> (m_interrupted p \<longrightarrow> (\<forall>p'. start p = Returns p' \<or> join p = Returns p' \<or> detach p = Returns p'
          \<longrightarrow> m_interrupted p'))
    \<and> (m_interrupted c \<longrightarrow> m_interrupted (exec ClockPulser_run es c))
    \<and> (m_interrupted q \<longrightarrow> m_interrupted (nexec NotifiedPulser_run nes q))
    \<and> (m_interrupted d \<longrightarrow> m_interrupted (nexec DelayedNotifiedPulser_run nes d))
    \<and> (m_interrupted t \<longrightarrow> (\<forall>t'. texec tes t = Some t' \<longrightarrow> m_interrupted t'))"
proof -
  have 1: "\<not> m_interrupted (ClockPulser_new clock i)"
    by (simp add: ClockPulser_new_def)
  have 2: "\<not> m_interrupted (NotifiedPulser_new clock)"
    by (simp add: NotifiedPulser_new_def)
  have 3: "\<not> m_interrupted (DelayedNotifiedPulser_new clock i)"
    by (simp add: DelayedNotifiedPulser_new_def)
  have 4: "\<not> m_interrupted (factory clock i)"
    by (simp add: factory_def)
  have 5: "m_interrupted (interrupt p)"
    by (simp add: interrupt_def)
  have 6: "m_interrupted (kill q)"
    by (simp add: kill_def wakeup_def interrupt_def)
  have 7: "(interrupt ^^ Suc n) p = interrupt p"
    by (rule interrupt_funpow)
  have 8: "m_interrupted q \<longrightarrow> m_interrupted (wakeup q)"
    by (simp add: wakeup_def)
  have 9: "m_interrupted p \<longrightarrow> (\<forall>p'. start p = Returns p' \<or> join p = Returns p'
      \<or> detach p = Returns p' \<longrightarrow> m_interrupted p')"
    using worker_calls_keep_flag [of p] by auto
  have 10: "m_interrupted c \<longrightarrow> m_interrupted (exec ClockPulser_run es c)"
  proof
    assume "m_interrupted c"
    with ClockPulser_run_flag show "m_interrupted (exec ClockPulser_run es c)"
      by (rule exec_keeps_flag)
  qed
  have 11: "m_interrupted q \<longrightarrow> m_interrupted (nexec NotifiedPulser_run nes q)"
  proof
    assume "m_interrupted q"
    with NotifiedPulser_run_flag show "m_interrupted (nexec NotifiedPulser_run nes q)"
      by (rule nexec_keeps_flag)
  qed
  have 12: "m_interrupted d \<longrightarrow> m_interrupted (nexec DelayedNotifiedPulser_run nes d)"
  proof
    assume "m_interrupted d"
    with DelayedNotifiedPulser_run_flag show "m_interrupted (nexec DelayedNotifiedPulser_run nes d)"
      by (rule nexec_keeps_flag)
  qed
  have 13: "m_interrupted t \<longrightarrow> (\<forall>t'. texec tes t = Some t' \<longrightarrow> m_interrupted t')"
    using texec_keeps_flag by blast
  from 1 2 3 4 5 6 7 8 9 10 11 12 13 show ?thesis
    by (intro conjI)
qed

theorem cancellation_flag_monotonic_witness:
  "\<not> m_interrupted (ClockPulser_new 0 5)
   \<and> m_interrupted (interrupt (ClockPulser_new 0 5))
   \<and> m_interrupted (exec ClockPulser_run [Step, Elapse 5, Step, Interrupt, Step]
        (interrupt (ClockPulser_new 0 5)\<lparr>pc := Entry\<rparr>))
   \<and> m_interrupted (nexec NotifiedPulser_run [NWakeup, NStep, NStep, NStep]
        (kill (NotifiedPulser_new 0)\<lparr>pc := Entry\<rparr>))
   \<and> m_interrupted (nexec DelayedNotifiedPulser_run [NWakeup, NStep, NStep, NStep]
        (kill (DelayedNotifiedPulser_new 0 3)\<lparr>pc := Entry\<rparr>))
   \<and> (\<exists>t'. texec [Step, Elapse 5, Step, Step, Step] (interrupt (factory 0 5)\<lparr>pc := Entry\<rparr>) = Some t'
        \<and> m_interrupted t')"
proof -
  have r: "\<exists>t'. texec [Step, Elapse 5, Step, Step, Step] (interrupt (factory 0 5)\<lparr>pc := Entry\<rparr>) = Some t'"
    by (simp add: turn_def SelfDeletingTimer_run_def statement_defs interrupt_def factory_def)
  have c: "m_interrupted (interrupt (ClockPulser_new 0 5)\<lparr>pc := Entry\<rparr>)"
    and q: "m_interrupted (kill (NotifiedPulser_new 0)\<lparr>pc := Entry\<rparr>)"
    and d: "m_interrupted (kill (DelayedNotifiedPulser_new 0 3)\<lparr>pc := Entry\<rparr>)"
    and t: "m_interrupted (interrupt (factory 0 5)\<lparr>pc := Entry\<rparr>)"
    by (simp_all add: interrupt_def kill_def wakeup_def)
  note inst = cancellation_flag_monotonic
      [where clock = 0 and i = 5 and p = "ClockPulser_new 0 5" and n = 0
        and q = "kill (NotifiedPulser_new 0)\<lparr>pc := Entry\<rparr>"
        and c = "interrupt (ClockPulser_new 0 5)\<lparr>pc := Entry\<rparr>"
        and es = "[Step, Elapse 5, Step, Interrupt, Step]"
        and nes = "[NWakeup, NStep, NStep, NStep]"
        and d = "kill (DelayedNotifiedPulser_new 0 3)\<lparr>pc := Entry\<rparr>"
        and t = "interrupt (factory 0 5)\<lparr>pc := Entry\<rparr>"
        and tes = "[Step, Elapse 5, Step, Step, Step]"]
  from inst have 1: "\<not> m_interrupted (ClockPulser_new 0 5)"
    by (elim conjE)
  from inst have 2: "m_interrupted (interrupt (ClockPulser_new 0 5))"
    by (elim conjE)
  from inst have "m_interrupted (interrupt (ClockPulser_new 0 5)\<lparr>pc := Entry\<rparr>) \<longrightarrow>
      m_interrupted (exec ClockPulser_run [Step, Elapse 5, Step, Interrupt, Step]
        (interrupt (ClockPulser_new 0 5)\<lparr>pc := Entry\<rparr>))"
    by (elim conjE)
  then have 3: "m_interrupted (exec ClockPulser_run [Step, Elapse 5, Step, Interrupt, Step]
        (interrupt (ClockPulser_new 0 5)\<lparr>pc := Entry\<rparr>))"
    using c by (rule mp)
  from inst have "m_interrupted (kill (NotifiedPulser_new 0)\<lparr>pc := Entry\<rparr>) \<longrightarrow>
      m_interrupted (nexec NotifiedPulser_run [NWakeup, NStep, NStep, NStep]
        (kill (NotifiedPulser_new 0)\<lparr>pc := Entry\<rparr>))"
    by (elim conjE)
  then have 4: "m_interrupted (nexec NotifiedPulser_run [NWakeup, NStep, NStep, NStep]
        (kill (NotifiedPulser_new 0)\<lparr>pc := Entry\<rparr>))"
    using q by (rule mp)
  from inst have "m_interrupted (kill (DelayedNotifiedPulser_new 0 3)\<lparr>pc := Entry\<rparr>) \<longrightarrow>
      m_interrupted (nexec DelayedNotifiedPulser_run [NWakeup, NStep, NStep, NStep]
        (kill (DelayedNotifiedPulser_new 0 3)\<lparr>pc := Entry\<rparr>))"
    by (elim conjE)
  then have 5: "m_interrupted (nexec DelayedNotifiedPulser_run [NWakeup, NStep, NStep, NStep]
        (kill (DelayedNotifiedPulser_new 0 3)\<lparr>pc := Entry\<rparr>))"
    using d by (rule mp)
  from inst have "m_interrupted (interrupt (factory 0 5)\<lparr>pc := Entry\<rparr>) \<longrightarrow>
      (\<forall>t'. texec [Step, Elapse 5, Step, Step, Step] (interrupt (factory 0 5)\<lparr>pc := Entry\<rparr>) = Some t'
        \<longrightarrow> m_interrupted t')"
    by (elim conjE)
  then have "\<forall>t'. texec [Step, Elapse 5, Step, Step, Step] (interrupt (factory 0 5)\<lparr>pc := Entry\<rparr>) = Some t'
        \<longrightarrow> m_interrupted t'"
    using t by (rule mp)
  with r have 6: "\<exists>t'. texec [Step, Elapse 5, Step, Step, Step] (interrupt (factory 0 5)\<lparr>pc := Entry\<rparr>) = Some t'
        \<and> m_interrupted t'"
    by blast
  from 1 2 3 4 5 6 show ?thesis by (intro conjI)
qed

text \<open>
  C8. \<open>join()\<close> returns only once the background routine has returned, and until then
  it blocks; it throws exactly when the worker holds no joinable handle, which is the
  case for a worker that was never started, for one that was joined and for one that
  was detached. A worker that was just started does not throw: its \<open>join()\<close> blocks.
\<close>

theorem join_blocks_until_done_or_throws:
  fixes w :: "'a PolymorphicThread_scheme"
  shows "(join w = Throws system_error \<longleftrightarrow> \<not> active w)
    \<and> (\<forall>w'. join w = Returns w' \<longrightarrow> pc w = Done \<and> w' = w\<lparr>m_thread := Empty\<rparr>)
    \<and> (active w \<and> pc w \<noteq> Done \<longrightarrow> join w = Blocks)
    \<and> (active w \<and> pc w = Done \<longrightarrow> join w = Returns (w\<lparr>m_thread := Empty\<rparr>))
    \<and> (m_thread w = Empty \<and> pc w = Idle \<longrightarrow> join w = Throws system_error)
    \<and> (\<forall>w'. join w = Returns w' \<longrightarrow> join w' = Throws system_error)
    \<and> (\<forall>w'. detach w = Returns w' \<longrightarrow> join w' = Throws system_error)
    \<and> (\<forall>w'. start w = Returns w' \<longrightarrow> join w' = Blocks)"
proof -
  have 1: "join w = Throws system_error \<longleftrightarrow> \<not> active w"
    by (simp add: join_eq active_def std_thread_joinable_def)
  have 2: "\<forall>w'. join w = Returns w' \<longrightarrow> pc w = Done \<and> w' = w\<lparr>m_thread := Empty\<rparr>"
    by (simp add: join_eq)
  have 3: "active w \<and> pc w \<noteq> Done \<longrightarrow> join w = Blocks"
    by (simp add: join_eq active_def std_thread_joinable_def)
  have 4: "active w \<and> pc w = Done \<longrightarrow> join w = Returns (w\<lparr>m_thread := Empty\<rparr>)"
    by (simp add: join_eq active_def std_thread_joinable_def)
  have 5: "m_thread w = Empty \<and> pc w = Idle \<longrightarrow> join w = Throws system_error"
    by (simp add: join_eq)
  have 6: "\<forall>w'. join w = Returns w' \<longrightarrow> join w' = Throws system_error"
    by (auto simp: join_eq split: if_splits)
  have 7: "\<forall>w'. detach w = Returns w' \<longrightarrow> join w' = Throws system_error"
    by (auto simp: join_eq detach_eq split: if_splits)
  have 8: "\<forall>w'. start w = Returns w' \<longrightarrow> join w' = Blocks"
    by (auto simp: join_eq start_eq split: if_splits)
  from 1 2 3 4 5 6 7 8 show ?thesis by blast
qed

theorem join_blocks_until_done_or_throws_witness:
  "join (NotifiedPulser_new 0) = Throws system_error
   \<and> (\<exists>w. start (NotifiedPulser_new 0) = Returns w \<and> join w = Blocks
        \<and> join (w\<lparr>pc := Done\<rparr>) = Returns (w\<lparr>pc := Done, m_thread := Empty\<rparr>)
        \<and> join (w\<lparr>pc := Done, m_thread := Empty\<rparr>) = Throws system_error
        \<and> (\<exists>w'. detach w = Returns w' \<and> join w' = Throws system_error))"
proof -
  let ?w = "(NotifiedPulser_new 0)\<lparr>m_thread := Attached, pc := Entry\<rparr>"
  have s: "start (NotifiedPulser_new 0) = Returns ?w"
    by (simp add: start_eq NotifiedPulser_new_def)
  have d: "detach ?w = Returns (?w\<lparr>m_thread := Empty\<rparr>)"
    by (simp add: detach_eq)
  have a: "active (?w\<lparr>pc := Done\<rparr>)" "pc (?w\<lparr>pc := Done\<rparr>) = Done"
    "m_thread (NotifiedPulser_new 0) = Empty" "pc (NotifiedPulser_new 0) = Idle"
    by (simp_all add: active_def std_thread_joinable_def NotifiedPulser_new_def)
  note new = join_blocks_until_done_or_throws [of "NotifiedPulser_new 0"]
  note run = join_blocks_until_done_or_throws [of ?w]
  note fin = join_blocks_until_done_or_throws [of "?w\<lparr>pc := Done\<rparr>"]
  have 1: "join (NotifiedPulser_new 0) = Throws system_error"
    using new a by blast
  have 2: "join ?w = Blocks"
    using new s by blast
  have 3: "join (?w\<lparr>pc := Done\<rparr>) = Returns (?w\<lparr>pc := Done, m_thread := Empty\<rparr>)"
    using fin a by blast
  have 4: "join (?w\<lparr>pc := Done, m_thread := Empty\<rparr>) = Throws system_error"
    using fin 3 by blast
  have 5: "join (?w\<lparr>m_thread := Empty\<rparr>) = Throws system_error"
    using run d by blast
  from s 1 2 3 4 5 d show ?thesis by blast
qed

section \<open>Facts about NotifiedPulser\<close>

lemma NotifiedPulser_turn:
  "turn NotifiedPulser_run s = (case pc s of
       Entry \<Rightarrow> if m_wake (m_notifiablelock s)
                then logged Waited (s\<lparr>m_notifiablelock := (m_notifiablelock s)\<lparr>m_wake := False\<rparr>, pc := Check\<rparr>)
                else s
     | Check \<Rightarrow> observe Done Tick s
     | Tick \<Rightarrow> tick Entry s
     | _ \<Rightarrow> s)"
  by (simp add: turn_def NotifiedPulser_run_def await_def wait_eq split: location.splits)

lemmas call_defs = interrupt_def wakeup_def notify_def kill_def

lemma leaving_turn:
  assumes "leaving s"
  shows "leaving (turn NotifiedPulser_run s)"
    and "distance (turn NotifiedPulser_run s) \<le> distance s - 1"
  using assms
  by (cases "pc s";
      simp add: leaving_def distance_def NotifiedPulser_turn statement_defs)+

lemma leaving_nfire:
  assumes "leaving s"
  shows "leaving (nfire NotifiedPulser_run e s)"
    and "distance (nfire NotifiedPulser_run e s) \<le> distance s - (if e = NStep then 1 else 0)"
proof -
  show "leaving (nfire NotifiedPulser_run e s)"
  proof (cases e)
    case NStep
    with assms show ?thesis by (simp add: leaving_turn)
  qed (use assms in \<open>auto simp: leaving_def call_defs\<close>)
  show "distance (nfire NotifiedPulser_run e s) \<le> distance s - (if e = NStep then 1 else 0)"
  proof (cases e)
    case NStep
    with leaving_turn(2) [OF assms] show ?thesis by simp
  qed (simp_all add: distance_def call_defs)
qed

lemma leaving_nexec:
  assumes "leaving s"
  shows "leaving (nexec NotifiedPulser_run es s)
    \<and> distance (nexec NotifiedPulser_run es s) \<le> distance s - steps es"
  using assms
proof (induction es arbitrary: s)
  case Nil
  then show ?case by (simp add: nexec_Nil steps_def)
next
  case (Cons e es)
  let ?s = "nfire NotifiedPulser_run e s"
  from Cons.prems have l: "leaving ?s"
    and d: "distance ?s \<le> distance s - (if e = NStep then 1 else 0)"
    by (rule leaving_nfire)+
  from Cons.IH [OF l] d show ?case
    by (auto simp: nexec_Cons steps_def)
qed


lemma leaving_Done: "leaving s \<Longrightarrow> distance s = 0 \<Longrightarrow> pc s = Done"
  by (auto simp: leaving_def distance_def)

lemma distance_le: "distance s \<le> 3"
  by (cases "pc s") (simp_all add: distance_def)

lemma looping_nfire:
  assumes "looping s"
  shows "looping (nfire NotifiedPulser_run e s)"
proof (cases e)
  case NStep
  with assms show ?thesis
    by (auto simp: looping_def NotifiedPulser_turn statement_defs)
qed (use assms in \<open>auto simp: looping_def call_defs\<close>)

lemma looping_nexec: "looping s \<Longrightarrow> looping (nexec NotifiedPulser_run es s)"
  by (induction es arbitrary: s) (simp_all add: nexec_Nil nexec_Cons looping_nfire)

lemma NotifiedPulser_run_keeps_flag:
  "m_interrupted (turn NotifiedPulser_run s) = m_interrupted s"
  by (cases "pc s") (simp_all add: NotifiedPulser_turn statement_defs)

lemma flag_nfire: "m_interrupted s \<Longrightarrow> m_interrupted (nfire NotifiedPulser_run e s)"
  by (cases e) (simp_all add: NotifiedPulser_run_keeps_flag call_defs)

lemma flag_nexec: "m_interrupted s \<Longrightarrow> m_interrupted (nexec NotifiedPulser_run es s)"
  by (induction es arbitrary: s) (simp_all add: nexec_Nil nexec_Cons flag_nfire)

lemma kill_then_exit:
  assumes "pc s = Entry \<or> pc s = Check \<or> pc s = Tick" and "3 \<le> steps es2"
  shows "pc (nexec NotifiedPulser_run (NInterrupt # es1 @ NWakeup # es2) s) = Done"
proof -
  let ?s1 = "nexec NotifiedPulser_run (NInterrupt # es1) s"
  let ?s2 = "nfire NotifiedPulser_run NWakeup ?s1"
  have "m_interrupted (nfire NotifiedPulser_run NInterrupt s)" by (simp add: call_defs)
  then have f: "m_interrupted ?s1" by (simp add: nexec_Cons flag_nexec)
  from assms(1) have "looping s" by (auto simp: looping_def)
  then have "looping ?s1" by (rule looping_nexec)
  with f have "leaving ?s2" by (auto simp: leaving_def looping_def call_defs)
  then have "leaving (nexec NotifiedPulser_run es2 ?s2)"
    and "distance (nexec NotifiedPulser_run es2 ?s2) \<le> distance ?s2 - steps es2"
    using leaving_nexec [of ?s2 es2] by simp_all
  moreover from assms(2) distance_le [of ?s2] have "distance ?s2 - steps es2 = 0" by simp
  ultimately have "pc (nexec NotifiedPulser_run es2 ?s2) = Done"
    by (simp add: leaving_Done)
  moreover have "nexec NotifiedPulser_run (NInterrupt # es1 @ NWakeup # es2) s
      = nexec NotifiedPulser_run es2 ?s2"
    by (simp add: nexec_def)
  ultimately show ?thesis by simp
qed

lemma ticks_simps:
  "ticks (logged a s) = ticks s @ (if a = Ticked then [now s] else [])"
  "actions (logged a s) = actions s @ [a]"
  by (simp_all add: ticks_def actions_def logged_def)

lemma set_flag_no_tick_nfire:
  assumes "m_interrupted s" and "pc s = Entry \<or> pc s = Check \<or> pc s = Done"
  shows "m_interrupted (nfire NotifiedPulser_run e s)
    \<and> (pc (nfire NotifiedPulser_run e s) = Entry \<or> pc (nfire NotifiedPulser_run e s) = Check
        \<or> pc (nfire NotifiedPulser_run e s) = Done)
    \<and> ticks (nfire NotifiedPulser_run e s) = ticks s"
proof (cases e)
  case NStep
  with assms show ?thesis
    by (auto simp: NotifiedPulser_turn statement_defs ticks_def)
qed (use assms in \<open>auto simp: call_defs ticks_def\<close>)

lemma set_flag_no_tick:
  assumes "m_interrupted s" and "pc s = Entry \<or> pc s = Check \<or> pc s = Done"
  shows "ticks (nexec NotifiedPulser_run es s) = ticks s"
  using assms
proof (induction es arbitrary: s)
  case Nil
  then show ?case by (simp add: nexec_Nil)
next
  case (Cons e es)
  from set_flag_no_tick_nfire [OF Cons.prems, of e] Cons.IH [of "nfire NotifiedPulser_run e s"]
  show ?case by (simp add: nexec_Cons)
qed

lemma Done_frozen_nfire:
  "pc s = Done \<Longrightarrow> pc (nfire NotifiedPulser_run e s) = Done
     \<and> history (nfire NotifiedPulser_run e s) = history s"
  by (cases e) (simp_all add: NotifiedPulser_turn call_defs)

lemma Done_frozen:
  "pc s = Done \<Longrightarrow> pc (nexec NotifiedPulser_run es s) = Done
     \<and> history (nexec NotifiedPulser_run es s) = history s"
proof (induction es arbitrary: s)
  case Nil
  then show ?case by (simp add: nexec_Nil)
next
  case (Cons e es)
  from Done_frozen_nfire [OF Cons.prems, of e] Cons.IH [of "nfire NotifiedPulser_run e s"]
  show ?case by (simp add: nexec_Cons)
qed

lemma blocked_nfire:
  assumes "pc s = Entry" and "\<not> m_wake (m_notifiablelock s)" and "e \<noteq> NWakeup"
  shows "pc (nfire NotifiedPulser_run e s) = Entry
    \<and> \<not> m_wake (m_notifiablelock (nfire NotifiedPulser_run e s))
    \<and> history (nfire NotifiedPulser_run e s) = history s"
  using assms by (cases e) (simp_all add: NotifiedPulser_turn call_defs)

lemma blocked_nexec:
  assumes "pc s = Entry" and "\<not> m_wake (m_notifiablelock s)" and "NWakeup \<notin> set es"
  shows "pc (nexec NotifiedPulser_run es s) = Entry
    \<and> \<not> m_wake (m_notifiablelock (nexec NotifiedPulser_run es s))
    \<and> history (nexec NotifiedPulser_run es s) = history s"
  using assms
proof (induction es arbitrary: s)
  case Nil
  then show ?case by (simp add: nexec_Nil)
next
  case (Cons e es)
  from Cons.prems have "e \<noteq> NWakeup" and "NWakeup \<notin> set es" by auto
  from blocked_nfire [OF Cons.prems(1,2) this(1)] Cons.IH [of "nfire NotifiedPulser_run e s"] this(2)
  show ?case by (simp add: nexec_Cons)
qed

text \<open>
  C2. \<open>kill()\<close> is \<open>interrupt()\<close> followed by \<open>wakeup()\<close>: it leaves the flag set and a
  wakeup pending. Whatever else happens between and after its two calls, a loop that is
  at its wait, its test or its tick when \<open>kill()\<close> starts has returned once the thread has
  been given three turns after the wakeup; if it was at its wait or its test, no tick is
  invoked after the \<open>interrupt()\<close> at all. The step in which the loop reads a set flag
  ends the routine, and the history never grows again: no tick follows. A bare
  \<open>interrupt()\<close> on a loop blocked in \<open>wait()\<close> with nothing pending leaves it blocked,
  with an unchanged history, for as long as no \<open>wakeup()\<close> arrives; the first
  \<open>wakeup()\<close> then lets it return within two turns.
\<close>

theorem NotifiedPulser_kill_releases_loop:
  fixes s :: "'a NotifiedPulser_scheme"
  shows "kill s = nexec NotifiedPulser_run [NInterrupt, NWakeup] s
    \<and> m_interrupted (kill s) \<and> m_wake (m_notifiablelock (kill s))
    \<and> ((pc s = Entry \<or> pc s = Check \<or> pc s = Tick) \<and> 3 \<le> steps rest \<longrightarrow>
          pc (nexec NotifiedPulser_run (NInterrupt # mid @ NWakeup # rest) s) = Done)
    \<and> (pc s = Entry \<or> pc s = Check \<longrightarrow>
          ticks (nexec NotifiedPulser_run (NInterrupt # es) s) = ticks s)
    \<and> (m_interrupted s \<and> pc s = Check \<longrightarrow>
          pc (nexec NotifiedPulser_run (NStep # es) s) = Done
          \<and> history (nexec NotifiedPulser_run (NStep # es) s) = history s @ [(now s, Checked True)])
    \<and> (pc s = Entry \<and> \<not> m_wake (m_notifiablelock s) \<and> NWakeup \<notin> set es \<longrightarrow>
          pc (nexec NotifiedPulser_run (NInterrupt # es) s) = Entry
          \<and> history (nexec NotifiedPulser_run (NInterrupt # es) s) = history s
          \<and> pc (nexec NotifiedPulser_run (NInterrupt # es @ [NWakeup, NStep, NStep]) s) = Done)"
proof -
  have 1: "kill s = nexec NotifiedPulser_run [NInterrupt, NWakeup] s"
    by (simp add: nexec_def kill_def)
  have 2: "m_interrupted (kill s)" and 3: "m_wake (m_notifiablelock (kill s))"
    by (simp_all add: call_defs)
  have 4: "(pc s = Entry \<or> pc s = Check \<or> pc s = Tick) \<and> 3 \<le> steps rest \<longrightarrow>
      pc (nexec NotifiedPulser_run (NInterrupt # mid @ NWakeup # rest) s) = Done"
    using kill_then_exit [of s rest mid] by simp
  have 5: "pc s = Entry \<or> pc s = Check \<longrightarrow>
      ticks (nexec NotifiedPulser_run (NInterrupt # es) s) = ticks s"
  proof
    assume "pc s = Entry \<or> pc s = Check"
    then have "ticks (nexec NotifiedPulser_run es (interrupt s)) = ticks (interrupt s)"
      by (intro set_flag_no_tick) (auto simp: call_defs)
    then show "ticks (nexec NotifiedPulser_run (NInterrupt # es) s) = ticks s"
      by (simp add: nexec_Cons call_defs ticks_def)
  qed
  have 6: "m_interrupted s \<and> pc s = Check \<longrightarrow>
      pc (nexec NotifiedPulser_run (NStep # es) s) = Done
      \<and> history (nexec NotifiedPulser_run (NStep # es) s) = history s @ [(now s, Checked True)]"
  proof
    assume a: "m_interrupted s \<and> pc s = Check"
    let ?s' = "turn NotifiedPulser_run s"
    from a have "pc ?s' = Done" and h: "history ?s' = history s @ [(now s, Checked True)]"
      by (simp_all add: NotifiedPulser_turn statement_defs)
    from Done_frozen [OF this(1), of es] h
    show "pc (nexec NotifiedPulser_run (NStep # es) s) = Done
      \<and> history (nexec NotifiedPulser_run (NStep # es) s) = history s @ [(now s, Checked True)]"
      by (simp add: nexec_Cons)
  qed
  have 7: "pc s = Entry \<and> \<not> m_wake (m_notifiablelock s) \<and> NWakeup \<notin> set es \<longrightarrow>
      pc (nexec NotifiedPulser_run (NInterrupt # es) s) = Entry
      \<and> history (nexec NotifiedPulser_run (NInterrupt # es) s) = history s
      \<and> pc (nexec NotifiedPulser_run (NInterrupt # es @ [NWakeup, NStep, NStep]) s) = Done"
  proof
    assume a: "pc s = Entry \<and> \<not> m_wake (m_notifiablelock s) \<and> NWakeup \<notin> set es"
    let ?s' = "nexec NotifiedPulser_run (NInterrupt # es) s"
    from a have b: "pc ?s' = Entry \<and> \<not> m_wake (m_notifiablelock ?s') \<and> history ?s' = history s"
      by (intro blocked_nexec) simp_all
    have "m_interrupted ?s'"
      by (simp add: nexec_Cons flag_nexec call_defs)
    with b have "pc (nexec NotifiedPulser_run [NWakeup, NStep, NStep] ?s') = Done"
      by (simp add: nexec_def NotifiedPulser_turn statement_defs call_defs)
    moreover have "nexec NotifiedPulser_run (NInterrupt # es @ [NWakeup, NStep, NStep]) s
        = nexec NotifiedPulser_run [NWakeup, NStep, NStep] ?s'"
      by (simp add: nexec_def)
    ultimately show "pc ?s' = Entry \<and> history ?s' = history s
      \<and> pc (nexec NotifiedPulser_run (NInterrupt # es @ [NWakeup, NStep, NStep]) s) = Done"
      using b by simp
  qed
  from 1 2 3 4 5 6 7 show ?thesis by (intro conjI)
qed

theorem NotifiedPulser_kill_releases_loop_witness:
  "pc (nexec NotifiedPulser_run (NInterrupt # [NStep] @ NWakeup # [NStep, NElapse 1, NStep, NStep])
        (NotifiedPulser_new 0\<lparr>pc := Entry\<rparr>)) = Done
   \<and> ticks (nexec NotifiedPulser_run (NInterrupt # [NStep, NElapse 2, NStep])
        (NotifiedPulser_new 0\<lparr>pc := Entry\<rparr>)) = []
   \<and> pc (nexec NotifiedPulser_run (NInterrupt # [NStep, NElapse 2, NStep])
        (NotifiedPulser_new 0\<lparr>pc := Entry\<rparr>)) = Entry
   \<and> pc (nexec NotifiedPulser_run (NInterrupt # [NStep, NElapse 2, NStep] @ [NWakeup, NStep, NStep])
        (NotifiedPulser_new 0\<lparr>pc := Entry\<rparr>)) = Done
   \<and> history (nexec NotifiedPulser_run (NStep # [NWakeup, NStep])
        (NotifiedPulser_new 0\<lparr>pc := Check, m_interrupted := True\<rparr>)) = [(0, Checked True)]"
proof -
  note at_wait = NotifiedPulser_kill_releases_loop
    [where s = "NotifiedPulser_new 0\<lparr>pc := Entry\<rparr>" and mid = "[NStep]"
      and rest = "[NStep, NElapse 1, NStep, NStep]" and es = "[NStep, NElapse 2, NStep]"]
  note at_test = NotifiedPulser_kill_releases_loop
    [where s = "NotifiedPulser_new 0\<lparr>pc := Check, m_interrupted := True\<rparr>"
      and es = "[NWakeup, NStep]"]
  have 1: "pc (nexec NotifiedPulser_run (NInterrupt # [NStep] @ NWakeup # [NStep, NElapse 1, NStep, NStep])
        (NotifiedPulser_new 0\<lparr>pc := Entry\<rparr>)) = Done"
    by (rule at_wait [THEN conjunct2, THEN conjunct2, THEN conjunct2, THEN conjunct1, THEN mp])
       (simp add: steps_def)
  have 2: "ticks (nexec NotifiedPulser_run (NInterrupt # [NStep, NElapse 2, NStep])
        (NotifiedPulser_new 0\<lparr>pc := Entry\<rparr>)) = ticks (NotifiedPulser_new 0\<lparr>pc := Entry\<rparr>)"
    by (rule at_wait [THEN conjunct2, THEN conjunct2, THEN conjunct2, THEN conjunct2,
          THEN conjunct1, THEN mp]) simp
  have 3: "pc (nexec NotifiedPulser_run (NInterrupt # [NStep, NElapse 2, NStep])
        (NotifiedPulser_new 0\<lparr>pc := Entry\<rparr>)) = Entry
      \<and> history (nexec NotifiedPulser_run (NInterrupt # [NStep, NElapse 2, NStep])
        (NotifiedPulser_new 0\<lparr>pc := Entry\<rparr>)) = history (NotifiedPulser_new 0\<lparr>pc := Entry\<rparr>)
      \<and> pc (nexec NotifiedPulser_run (NInterrupt # [NStep, NElapse 2, NStep] @ [NWakeup, NStep, NStep])
        (NotifiedPulser_new 0\<lparr>pc := Entry\<rparr>)) = Done"
    by (rule at_wait [THEN conjunct2, THEN conjunct2, THEN conjunct2, THEN conjunct2,
          THEN conjunct2, THEN conjunct2, THEN mp])
       (simp add: NotifiedPulser_new_def notifiable_new_def)
  have 4: "pc (nexec NotifiedPulser_run (NStep # [NWakeup, NStep])
        (NotifiedPulser_new 0\<lparr>pc := Check, m_interrupted := True\<rparr>)) = Done
      \<and> history (nexec NotifiedPulser_run (NStep # [NWakeup, NStep])
        (NotifiedPulser_new 0\<lparr>pc := Check, m_interrupted := True\<rparr>))
        = history (NotifiedPulser_new 0\<lparr>pc := Check, m_interrupted := True\<rparr>)
          @ [(now (NotifiedPulser_new 0\<lparr>pc := Check, m_interrupted := True\<rparr>), Checked True)]"
    by (rule at_test [THEN conjunct2, THEN conjunct2, THEN conjunct2, THEN conjunct2,
          THEN conjunct2, THEN conjunct1, THEN mp]) simp
  have 5: "ticks (NotifiedPulser_new 0\<lparr>pc := Entry\<rparr>) = []"
    "history (NotifiedPulser_new 0\<lparr>pc := Check, m_interrupted := True\<rparr>) = []"
    "now (NotifiedPulser_new 0\<lparr>pc := Check, m_interrupted := True\<rparr>) = 0"
    by (simp_all add: NotifiedPulser_new_def ticks_def)
  from 1 2 3 4 show ?thesis unfolding 5 by simp
qed

lemma cycles_simps:
  "cycles trig 0 = []"
  "cycles trig (Suc k) = trig # Checked False # Ticked # cycles trig k"
  by (simp_all add: cycles_def)

lemma cycles_snoc: "cycles trig k @ [trig, Checked False, Ticked] = cycles trig (Suc k)"
  by (induction k) (simp_all add: cycles_simps)

lemma iterations_cycles: "iterations trig (cycles trig k @ rest) = iterations trig rest"
  by (induction k) (simp_all add: cycles_simps)

lemma iterations_cycles_only: "iterations trig (cycles trig k)"
  using iterations_cycles [of trig k "[]"] by simp

lemma shaped_iterations: "shaped trig l acts \<Longrightarrow> iterations trig acts"
  by (cases l) (auto simp: shaped_def iterations_cycles iterations_cycles_only)

lemma logged_fields:
  "pc (logged a s) = pc s"
  "now (logged a s) = now s"
  "wake_time (logged a s) = wake_time s"
  "m_thread (logged a s) = m_thread s"
  "history (logged a s) = history s @ [(now s, a)]"
  by (simp_all add: logged_def)

lemma logged_flag: "m_interrupted (logged a s) = m_interrupted s"
  by (simp add: logged_def)

lemma logged_lock: "m_notifiablelock (logged a s) = m_notifiablelock s"
  by (simp add: logged_def)

lemma actions_upd:
  "actions (s\<lparr>pc := l\<rparr>) = actions s"
  "actions (s\<lparr>now := t\<rparr>) = actions s"
  "actions (s\<lparr>wake_time := t\<rparr>) = actions s"
  "ticks (s\<lparr>pc := l\<rparr>) = ticks s"
  "ticks (s\<lparr>now := t\<rparr>) = ticks s"
  "ticks (s\<lparr>wake_time := t\<rparr>) = ticks s"
  by (simp_all add: actions_def ticks_def)

lemma actions_upd_flag:
  "actions (s\<lparr>m_interrupted := b\<rparr>) = actions s"
  "ticks (s\<lparr>m_interrupted := b\<rparr>) = ticks s"
  by (simp_all add: actions_def ticks_def)

lemma actions_upd_lock:
  "actions (s\<lparr>m_notifiablelock := n\<rparr>) = actions s"
  "ticks (s\<lparr>m_notifiablelock := n\<rparr>) = ticks s"
  by (simp_all add: actions_def ticks_def)

lemmas history_simps = ticks_simps logged_fields logged_flag logged_lock actions_upd
  actions_upd_flag actions_upd_lock

lemma count_cycles:
  "trig \<noteq> Ticked \<Longrightarrow> trig \<noteq> Checked False \<Longrightarrow>
     count_list (cycles trig k) Ticked = k \<and> count_list (cycles trig k) (Checked False) = k"
  by (induction k) (simp_all add: cycles_simps)

lemma shaped_counts:
  assumes "shaped trig l acts" and "l \<noteq> Tick" and "trig \<noteq> Ticked" and "trig \<noteq> Checked False"
  shows "count_list acts Ticked = count_list acts (Checked False)"
proof -
  from assms(1) obtain k where "acts = cycles trig k @
     (case l of Check \<Rightarrow> [trig] | Tick \<Rightarrow> [trig, Checked False]
        | Done \<Rightarrow> [trig, Checked True] | _ \<Rightarrow> [])"
    unfolding shaped_def by blast
  with assms(2-4) count_cycles [of trig k] show ?thesis
    by (cases l) auto
qed

lemma length_ticks: "length (ticks s) = count_list (actions s) Ticked"
proof -
  have "length (map fst (filter (\<lambda>e. snd e = Ticked) h)) = count_list (map snd h) Ticked"
    for h :: "(nat \<times> action) list"
    by (induction h) simp_all
  then show ?thesis by (simp add: ticks_def actions_def)
qed

lemma shaped_start: "shaped trig Entry []"
  unfolding shaped_def by (rule exI [of _ 0]) (simp add: cycles_simps)

lemma shaped_trigger:
  "shaped trig Entry acts \<Longrightarrow> shaped trig Check (acts @ [trig])"
  by (auto simp: shaped_def)


lemma shaped_check:
  "shaped trig Check acts \<Longrightarrow> shaped trig (if b then Done else Tick) (acts @ [Checked b])"
  by (auto simp: shaped_def)

lemma shaped_tick:
  assumes "shaped trig Tick acts"
  shows "shaped trig Entry (acts @ [Ticked])"
proof -
  from assms obtain k where "acts = cycles trig k @ [trig, Checked False]"
    by (auto simp: shaped_def)
  then have "acts @ [Ticked] = cycles trig (Suc k)"
    by (simp add: cycles_snoc [symmetric])
  then show ?thesis unfolding shaped_def by (intro exI [of _ "Suc k"]) simp
qed

lemma shaped_turn:
  assumes "shaped Waited (pc s) (actions s)"
  shows "shaped Waited (pc (turn NotifiedPulser_run s)) (actions (turn NotifiedPulser_run s))"
proof (cases "pc s")
  case Entry
  with assms show ?thesis
    by (simp add: NotifiedPulser_turn history_simps shaped_trigger)
next
  case Check
  with assms shaped_check [of Waited "actions s" "m_interrupted s"] show ?thesis
    by (simp add: NotifiedPulser_turn observe_def history_simps)
next
  case Tick
  with assms shaped_tick [of Waited "actions s"] show ?thesis
    by (simp add: NotifiedPulser_turn tick_def history_simps)
qed (use assms in \<open>simp_all add: NotifiedPulser_turn\<close>)

lemma shaped_nfire:
  assumes "shaped Waited (pc s) (actions s)"
  shows "shaped Waited (pc (nfire NotifiedPulser_run e s)) (actions (nfire NotifiedPulser_run e s))"
proof (cases e)
  case NStep
  with assms show ?thesis by (simp add: shaped_turn)
qed (use assms in \<open>simp_all add: call_defs history_simps\<close>)

lemma shaped_nexec:
  "shaped Waited (pc s) (actions s) \<Longrightarrow>
     shaped Waited (pc (nexec NotifiedPulser_run es s)) (actions (nexec NotifiedPulser_run es s))"
  by (induction es arbitrary: s) (simp_all add: nexec_Nil nexec_Cons shaped_nfire)

lemma serving_turn:
  assumes "serving n s"
  shows "serving n (turn NotifiedPulser_run s)"
    and "todo (turn NotifiedPulser_run s) \<le> todo s - 1"
  using assms
  by (cases "pc s";
      auto simp: serving_def todo_def NotifiedPulser_turn observe_def tick_def history_simps)+

lemma serving_nfire:
  assumes "serving n s" and "e \<noteq> NWakeup \<and> e \<noteq> NInterrupt"
  shows "serving n (nfire NotifiedPulser_run e s)"
    and "todo (nfire NotifiedPulser_run e s) \<le> todo s - (if e = NStep then 1 else 0)"
proof -
  show "serving n (nfire NotifiedPulser_run e s)"
  proof (cases e)
    case NStep
    with assms show ?thesis by (simp add: serving_turn)
  qed (use assms in \<open>auto simp: serving_def history_simps\<close>)
  show "todo (nfire NotifiedPulser_run e s) \<le> todo s - (if e = NStep then 1 else 0)"
  proof (cases e)
    case NStep
    with serving_turn(2) [OF assms(1)] show ?thesis by simp
  qed (use assms in \<open>simp_all add: todo_def\<close>)
qed

lemma serving_nexec:
  assumes "serving n s" and "list_all (\<lambda>e. e \<noteq> NWakeup \<and> e \<noteq> NInterrupt) r"
  shows "serving n (nexec NotifiedPulser_run r s)
    \<and> todo (nexec NotifiedPulser_run r s) \<le> todo s - steps r"
  using assms
proof (induction r arbitrary: s)
  case Nil
  then show ?case by (simp add: nexec_Nil steps_def)
next
  case (Cons e r)
  let ?s = "nfire NotifiedPulser_run e s"
  from Cons.prems have e: "e \<noteq> NWakeup \<and> e \<noteq> NInterrupt"
    and r: "list_all (\<lambda>e. e \<noteq> NWakeup \<and> e \<noteq> NInterrupt) r" by simp_all
  from Cons.prems(1) e have l: "serving n ?s"
    and d: "todo ?s \<le> todo s - (if e = NStep then 1 else 0)"
    by (rule serving_nfire)+
  from Cons.IH [OF l r] d show ?case
    by (auto simp: nexec_Cons steps_def)
qed

lemma todo_le: "todo s \<le> 3"
  by (cases "pc s") (simp_all add: todo_def)

lemma one_round:
  assumes "pc s = Entry" and "\<not> m_interrupted s" and "paced r"
  shows "pc (nexec NotifiedPulser_run (NWakeup # r) s) = Entry
    \<and> \<not> m_interrupted (nexec NotifiedPulser_run (NWakeup # r) s)
    \<and> length (ticks (nexec NotifiedPulser_run (NWakeup # r) s)) = Suc (length (ticks s))"
proof -
  let ?s1 = "nfire NotifiedPulser_run NWakeup s"
  let ?s' = "nexec NotifiedPulser_run r ?s1"
  from assms(1,2) have "serving (length (ticks s)) ?s1"
    by (simp add: serving_def call_defs history_simps)
  with assms(3) have "serving (length (ticks s)) ?s'" and "todo ?s' \<le> todo ?s1 - steps r"
    using serving_nexec [of "length (ticks s)" ?s1 r] by (simp_all add: paced_def)
  moreover from assms(3) todo_le [of ?s1] have "todo ?s1 - steps r = 0"
    by (simp add: paced_def)
  ultimately have "serving (length (ticks s)) ?s'" and "todo ?s' = 0" by simp_all
  then have "pc ?s' = Entry \<and> \<not> m_interrupted ?s' \<and> length (ticks ?s') = Suc (length (ticks s))"
    by (auto simp: serving_def todo_def)
  then show ?thesis by (simp add: nexec_Cons)
qed

lemma wakeup_rounds_ticks:
  assumes "pc s = Entry" and "\<not> m_interrupted s" and "list_all paced rs"
  shows "pc (nexec NotifiedPulser_run (wakeup_rounds rs) s) = Entry
    \<and> \<not> m_interrupted (nexec NotifiedPulser_run (wakeup_rounds rs) s)
    \<and> length (ticks (nexec NotifiedPulser_run (wakeup_rounds rs) s)) = length (ticks s) + length rs"
  using assms
proof (induction rs arbitrary: s)
  case Nil
  then show ?case by (simp add: wakeup_rounds_def nexec_Nil)
next
  case (Cons r rs)
  let ?s' = "nexec NotifiedPulser_run (NWakeup # r) s"
  have split: "nexec NotifiedPulser_run (wakeup_rounds (r # rs)) s
      = nexec NotifiedPulser_run (wakeup_rounds rs) ?s'"
    by (simp add: wakeup_rounds_def nexec_def)
  from Cons.prems have "paced r" and rs: "list_all paced rs" by simp_all
  from one_round [OF Cons.prems(1,2) this(1)]
  have "pc ?s' = Entry" and "\<not> m_interrupted ?s'"
    and "length (ticks ?s') = Suc (length (ticks s))"
    by simp_all
  with Cons.IH [of ?s'] rs show ?case unfolding split by simp
qed

lemma waits_turn:
  "count_list (actions (turn NotifiedPulser_run s)) Waited + pending (turn NotifiedPulser_run s)
     \<le> count_list (actions s) Waited + pending s"
  by (cases "pc s")
     (simp_all add: pending_def NotifiedPulser_turn observe_def tick_def history_simps)

lemma waits_nfire:
  "count_list (actions (nfire NotifiedPulser_run e s)) Waited + pending (nfire NotifiedPulser_run e s)
     \<le> count_list (actions s) Waited + pending s + count_list [e] NWakeup"
proof (cases e)
  case NStep
  with waits_turn [of s] show ?thesis by simp
qed (simp_all add: pending_def call_defs history_simps)

lemma waits_nexec:
  "count_list (actions (nexec NotifiedPulser_run es s)) Waited + pending (nexec NotifiedPulser_run es s)
     \<le> count_list (actions s) Waited + pending s + count_list es NWakeup"
proof (induction es arbitrary: s)
  case Nil
  then show ?case by (simp add: nexec_Nil)
next
  case (Cons e es)
  from waits_nfire [of e s] Cons [of "nfire NotifiedPulser_run e s"]
  show ?case by (simp add: nexec_Cons split: if_splits)
qed

lemma count_cycles_trig:
  "trig \<noteq> Ticked \<Longrightarrow> trig \<noteq> Checked False \<Longrightarrow> count_list (cycles trig k) trig = k"
  by (induction k) (simp_all add: cycles_simps)

lemma shaped_waits:
  assumes "shaped trig l acts" and "trig \<noteq> Ticked" and "trig \<noteq> Checked False"
    and "trig \<noteq> Checked True"
  shows "count_list acts trig
    = count_list acts Ticked + (if l = Check \<or> l = Tick \<or> l = Done then 1 else 0)"
proof -
  from assms(1) obtain k where "acts = cycles trig k @
     (case l of Check \<Rightarrow> [trig] | Tick \<Rightarrow> [trig, Checked False]
        | Done \<Rightarrow> [trig, Checked True] | _ \<Rightarrow> [])"
    unfolding shaped_def by blast
  with assms(2-4) count_cycles [of trig k] count_cycles_trig [of trig k] show ?thesis
    by (cases l) auto
qed

lemma going_turn:
  assumes "\<not> m_interrupted s" and "pc s \<noteq> Done"
  shows "\<not> m_interrupted (turn NotifiedPulser_run s) \<and> pc (turn NotifiedPulser_run s) \<noteq> Done"
  using assms
  by (cases "pc s") (simp_all add: NotifiedPulser_turn observe_def tick_def history_simps)

lemma going_nexec:
  assumes "\<not> m_interrupted s" and "pc s \<noteq> Done" and "NInterrupt \<notin> set es"
  shows "\<not> m_interrupted (nexec NotifiedPulser_run es s) \<and> pc (nexec NotifiedPulser_run es s) \<noteq> Done"
  using assms
proof (induction es arbitrary: s)
  case Nil
  then show ?case by (simp add: nexec_Nil)
next
  case (Cons e es)
  from Cons.prems have e: "e \<noteq> NInterrupt" and es: "NInterrupt \<notin> set es" by auto
  have "\<not> m_interrupted (nfire NotifiedPulser_run e s) \<and> pc (nfire NotifiedPulser_run e s) \<noteq> Done"
  proof (cases e)
    case NStep
    with going_turn [OF Cons.prems(1,2)] show ?thesis by simp
  qed (use e Cons.prems in \<open>simp_all add: call_defs\<close>)
  with Cons.IH [of "nfire NotifiedPulser_run e s"] es show ?case
    by (simp add: nexec_Cons)
qed

text \<open>
  C3. One turn of the loop: at its wait with no wakeup pending the thread stays as it
  is; with one pending it consumes it (the flag of the lock goes down) and goes to the
  test; the test reads the cancellation flag as it is at that moment and goes to the tick
  exactly when it read false; the tick is invoked and the loop is back at its wait. Over
  every run of events from the start of the loop: the history is a sequence of iterations
  in which a tick stands only directly after a test that read false, which stands only
  directly after a consumed wakeup; the waits that returned, plus the wakeup still
  pending, are at most the calls of \<open>wakeup()\<close> plus the one pending at the start, and
  so are the ticks; with nothing pending and no \<open>wakeup()\<close> nothing happens at all;
  without any \<open>interrupt()\<close> the loop never returns and every consumed wakeup has had
  its tick unless the thread is still on its way to it. Hence \<open>K\<close> calls of
  \<open>wakeup()\<close>, each followed by any events other than \<open>wakeup()\<close> and
  \<open>interrupt()\<close> that give the thread three turns or more, make exactly \<open>K\<close> ticks.
\<close>

theorem NotifiedPulser_ticks_once_per_consumed_wakeup:
  fixes s :: "'a NotifiedPulser_scheme"
  shows "(pc s = Entry \<and> \<not> m_wake (m_notifiablelock s) \<longrightarrow> turn NotifiedPulser_run s = s)
    \<and> (pc s = Entry \<and> m_wake (m_notifiablelock s) \<longrightarrow>
          pc (turn NotifiedPulser_run s) = Check
          \<and> \<not> m_wake (m_notifiablelock (turn NotifiedPulser_run s))
          \<and> history (turn NotifiedPulser_run s) = history s @ [(now s, Waited)])
    \<and> (pc s = Check \<longrightarrow>
          pc (turn NotifiedPulser_run s) = (if m_interrupted s then Done else Tick)
          \<and> history (turn NotifiedPulser_run s) = history s @ [(now s, Checked (m_interrupted s))])
    \<and> (pc s = Tick \<longrightarrow>
          pc (turn NotifiedPulser_run s) = Entry
          \<and> history (turn NotifiedPulser_run s) = history s @ [(now s, Ticked)])
    \<and> (pc s = Entry \<and> history s = [] \<longrightarrow>
          iterations Waited (actions (nexec NotifiedPulser_run es s))
          \<and> (pc (nexec NotifiedPulser_run es s) \<noteq> Tick \<longrightarrow>
                length (ticks (nexec NotifiedPulser_run es s))
                  = count_list (actions (nexec NotifiedPulser_run es s)) (Checked False))
          \<and> count_list (actions (nexec NotifiedPulser_run es s)) Waited
                + pending (nexec NotifiedPulser_run es s)
              \<le> pending s + count_list es NWakeup
          \<and> length (ticks (nexec NotifiedPulser_run es s)) \<le> pending s + count_list es NWakeup)
    \<and> (pc s = Entry \<and> \<not> m_wake (m_notifiablelock s) \<and> NWakeup \<notin> set es \<longrightarrow>
          history (nexec NotifiedPulser_run es s) = history s)
    \<and> (pc s = Entry \<and> history s = [] \<and> \<not> m_interrupted s \<and> NInterrupt \<notin> set es \<longrightarrow>
          pc (nexec NotifiedPulser_run es s) \<noteq> Done
          \<and> count_list (actions (nexec NotifiedPulser_run es s)) Waited
              = length (ticks (nexec NotifiedPulser_run es s))
                + (if pc (nexec NotifiedPulser_run es s) = Check
                      \<or> pc (nexec NotifiedPulser_run es s) = Tick then 1 else 0))
    \<and> (pc s = Entry \<and> \<not> m_interrupted s \<and> list_all paced rs \<longrightarrow>
          length (ticks (nexec NotifiedPulser_run (wakeup_rounds rs) s)) = length (ticks s) + length rs)"
proof -
  let ?s' = "nexec NotifiedPulser_run es s"
  have 1: "pc s = Entry \<and> \<not> m_wake (m_notifiablelock s) \<longrightarrow> turn NotifiedPulser_run s = s"
    by (simp add: NotifiedPulser_turn)
  have 2: "pc s = Entry \<and> m_wake (m_notifiablelock s) \<longrightarrow>
      pc (turn NotifiedPulser_run s) = Check
      \<and> \<not> m_wake (m_notifiablelock (turn NotifiedPulser_run s))
      \<and> history (turn NotifiedPulser_run s) = history s @ [(now s, Waited)]"
    by (simp add: NotifiedPulser_turn history_simps)
  have 3: "pc s = Check \<longrightarrow>
      pc (turn NotifiedPulser_run s) = (if m_interrupted s then Done else Tick)
      \<and> history (turn NotifiedPulser_run s) = history s @ [(now s, Checked (m_interrupted s))]"
    by (simp add: NotifiedPulser_turn observe_def history_simps)
  have 4: "pc s = Tick \<longrightarrow>
      pc (turn NotifiedPulser_run s) = Entry
      \<and> history (turn NotifiedPulser_run s) = history s @ [(now s, Ticked)]"
    by (simp add: NotifiedPulser_turn tick_def history_simps)
  have sh: "shaped Waited (pc ?s') (actions ?s')" if "pc s = Entry \<and> history s = []"
  proof -
    from that have "shaped Waited (pc s) (actions s)"
      by (simp add: actions_def shaped_start)
    then show ?thesis by (rule shaped_nexec)
  qed
  have 5: "pc s = Entry \<and> history s = [] \<longrightarrow>
      iterations Waited (actions ?s')
      \<and> (pc ?s' \<noteq> Tick \<longrightarrow> length (ticks ?s') = count_list (actions ?s') (Checked False))
      \<and> count_list (actions ?s') Waited + pending ?s' \<le> pending s + count_list es NWakeup
      \<and> length (ticks ?s') \<le> pending s + count_list es NWakeup"
  proof
    assume a: "pc s = Entry \<and> history s = []"
    note s = sh [OF a]
    from s have i: "iterations Waited (actions ?s')" by (rule shaped_iterations)
    have c: "length (ticks ?s') = count_list (actions ?s') (Checked False)" if "pc ?s' \<noteq> Tick"
      using shaped_counts [OF s that] by (simp add: length_ticks)
    from a waits_nexec [of es s]
    have w: "count_list (actions ?s') Waited + pending ?s' \<le> pending s + count_list es NWakeup"
      by (simp add: actions_def)
    from shaped_waits [OF s] have "length (ticks ?s') \<le> count_list (actions ?s') Waited"
      by (simp add: length_ticks)
    with w have "length (ticks ?s') \<le> pending s + count_list es NWakeup" by simp
    with i c w show "iterations Waited (actions ?s')
      \<and> (pc ?s' \<noteq> Tick \<longrightarrow> length (ticks ?s') = count_list (actions ?s') (Checked False))
      \<and> count_list (actions ?s') Waited + pending ?s' \<le> pending s + count_list es NWakeup
      \<and> length (ticks ?s') \<le> pending s + count_list es NWakeup"
      by simp
  qed
  have 6: "pc s = Entry \<and> \<not> m_wake (m_notifiablelock s) \<and> NWakeup \<notin> set es \<longrightarrow>
      history ?s' = history s"
    using blocked_nexec [of s es] by simp
  have 7: "pc s = Entry \<and> history s = [] \<and> \<not> m_interrupted s \<and> NInterrupt \<notin> set es \<longrightarrow>
      pc ?s' \<noteq> Done
      \<and> count_list (actions ?s') Waited
          = length (ticks ?s') + (if pc ?s' = Check \<or> pc ?s' = Tick then 1 else 0)"
  proof
    assume a: "pc s = Entry \<and> history s = [] \<and> \<not> m_interrupted s \<and> NInterrupt \<notin> set es"
    then have d: "pc ?s' \<noteq> Done" using going_nexec [of s es] by simp
    from a have "shaped Waited (pc ?s') (actions ?s')" by (simp add: sh)
    from shaped_waits [OF this] d
    show "pc ?s' \<noteq> Done
      \<and> count_list (actions ?s') Waited
          = length (ticks ?s') + (if pc ?s' = Check \<or> pc ?s' = Tick then 1 else 0)"
      by (simp add: length_ticks)
  qed
  have 8: "pc s = Entry \<and> \<not> m_interrupted s \<and> list_all paced rs \<longrightarrow>
      length (ticks (nexec NotifiedPulser_run (wakeup_rounds rs) s)) = length (ticks s) + length rs"
    using wakeup_rounds_ticks [of s rs] by simp
  from 1 2 3 4 5 6 7 8 show ?thesis by (intro conjI)
qed

theorem NotifiedPulser_ticks_once_per_consumed_wakeup_witness:
  "turn NotifiedPulser_run (NotifiedPulser_new 0\<lparr>pc := Entry\<rparr>) = NotifiedPulser_new 0\<lparr>pc := Entry\<rparr>
   \<and> pc (turn NotifiedPulser_run (wakeup (NotifiedPulser_new 0\<lparr>pc := Entry\<rparr>))) = Check
   \<and> pc (turn NotifiedPulser_run (NotifiedPulser_new 0\<lparr>pc := Check\<rparr>)) = Tick
   \<and> pc (turn NotifiedPulser_run (NotifiedPulser_new 0\<lparr>pc := Tick\<rparr>)) = Entry
   \<and> actions (nexec NotifiedPulser_run
        [NWakeup, NWakeup, NStep, NStep, NStep, NStep, NWakeup, NInterrupt, NStep, NStep]
        (NotifiedPulser_new 0\<lparr>pc := Entry\<rparr>))
       = [Waited, Checked False, Ticked, Waited, Checked True]
   \<and> iterations Waited (actions (nexec NotifiedPulser_run
        [NWakeup, NWakeup, NStep, NStep, NStep, NStep, NWakeup, NInterrupt, NStep, NStep]
        (NotifiedPulser_new 0\<lparr>pc := Entry\<rparr>)))
   \<and> length (ticks (nexec NotifiedPulser_run
        [NWakeup, NWakeup, NStep, NStep, NStep, NStep, NWakeup, NInterrupt, NStep, NStep]
        (NotifiedPulser_new 0\<lparr>pc := Entry\<rparr>))) \<le> 0 + 3
   \<and> history (nexec NotifiedPulser_run [NStep, NElapse 4, NInterrupt, NStep, NStep]
        (NotifiedPulser_new 0\<lparr>pc := Entry\<rparr>)) = []
   \<and> count_list (actions (nexec NotifiedPulser_run [NWakeup, NStep, NStep, NStep, NWakeup, NStep]
        (NotifiedPulser_new 0\<lparr>pc := Entry\<rparr>))) Waited = 1 + 1
   \<and> length (ticks (nexec NotifiedPulser_run
        (wakeup_rounds [[NStep, NStep, NStep], [NElapse 2, NStep, NStep, NElapse 1, NStep, NStep],
           [NStep, NStep, NStep, NStep]])
        (NotifiedPulser_new 0\<lparr>pc := Entry\<rparr>))) = 3"
proof -
  let ?s = "NotifiedPulser_new 0\<lparr>pc := Entry\<rparr>"
  let ?es = "[NWakeup, NWakeup, NStep, NStep, NStep, NStep, NWakeup, NInterrupt, NStep, NStep]"
  let ?quiet = "[NStep, NElapse 4, NInterrupt, NStep, NStep]"
  let ?two = "[NWakeup, NStep, NStep, NStep, NWakeup, NStep]"
  let ?rs = "[[NStep, NStep, NStep], [NElapse 2, NStep, NStep, NElapse 1, NStep, NStep],
    [NStep, NStep, NStep, NStep]]"
  note run = NotifiedPulser_ticks_once_per_consumed_wakeup [where s = ?s and es = ?es and rs = ?rs]
  note idle = NotifiedPulser_ticks_once_per_consumed_wakeup [where s = ?s and es = ?quiet]
  note busy = NotifiedPulser_ticks_once_per_consumed_wakeup [where s = ?s and es = ?two]
  note woken = NotifiedPulser_ticks_once_per_consumed_wakeup [where s = "wakeup ?s"]
  note test = NotifiedPulser_ticks_once_per_consumed_wakeup
    [where s = "NotifiedPulser_new 0\<lparr>pc := Check\<rparr>"]
  note call = NotifiedPulser_ticks_once_per_consumed_wakeup
    [where s = "NotifiedPulser_new 0\<lparr>pc := Tick\<rparr>"]
  have st: "pc ?s = Entry" "history ?s = []" "\<not> m_interrupted ?s" "\<not> m_wake (m_notifiablelock ?s)"
    "pending ?s = 0" "ticks ?s = []"
    by (simp_all add: NotifiedPulser_new_def notifiable_new_def pending_def ticks_def)
  have ev: "actions (nexec NotifiedPulser_run ?es ?s) = [Waited, Checked False, Ticked, Waited, Checked True]"
    "length (ticks (nexec NotifiedPulser_run ?two ?s)) = 1"
    "pc (nexec NotifiedPulser_run ?two ?s) = Check"
    by (simp_all add: nexec_def NotifiedPulser_turn call_defs observe_def tick_def logged_def
        NotifiedPulser_new_def notifiable_new_def actions_def ticks_def)
  have 1: "turn NotifiedPulser_run ?s = ?s"
    by (rule run [THEN conjunct1, THEN mp]) (simp add: st NotifiedPulser_new_def notifiable_new_def)
  have 2: "pc (turn NotifiedPulser_run (wakeup ?s)) = Check
      \<and> \<not> m_wake (m_notifiablelock (turn NotifiedPulser_run (wakeup ?s)))
      \<and> history (turn NotifiedPulser_run (wakeup ?s))
          = history (wakeup ?s) @ [(now (wakeup ?s), Waited)]"
    by (rule woken [THEN conjunct2, THEN conjunct1, THEN mp]) (simp add: call_defs)
  have 3: "pc (turn NotifiedPulser_run (NotifiedPulser_new 0\<lparr>pc := Check\<rparr>))
        = (if m_interrupted (NotifiedPulser_new 0\<lparr>pc := Check\<rparr>) then Done else Tick)
      \<and> history (turn NotifiedPulser_run (NotifiedPulser_new 0\<lparr>pc := Check\<rparr>))
          = history (NotifiedPulser_new 0\<lparr>pc := Check\<rparr>)
            @ [(now (NotifiedPulser_new 0\<lparr>pc := Check\<rparr>),
                Checked (m_interrupted (NotifiedPulser_new 0\<lparr>pc := Check\<rparr>)))]"
    by (rule test [THEN conjunct2, THEN conjunct2, THEN conjunct1, THEN mp]) simp
  have 4: "pc (turn NotifiedPulser_run (NotifiedPulser_new 0\<lparr>pc := Tick\<rparr>)) = Entry
      \<and> history (turn NotifiedPulser_run (NotifiedPulser_new 0\<lparr>pc := Tick\<rparr>))
          = history (NotifiedPulser_new 0\<lparr>pc := Tick\<rparr>)
            @ [(now (NotifiedPulser_new 0\<lparr>pc := Tick\<rparr>), Ticked)]"
    by (rule call [THEN conjunct2, THEN conjunct2, THEN conjunct2, THEN conjunct1, THEN mp]) simp
  have 5: "iterations Waited (actions (nexec NotifiedPulser_run ?es ?s))
      \<and> (pc (nexec NotifiedPulser_run ?es ?s) \<noteq> Tick \<longrightarrow>
            length (ticks (nexec NotifiedPulser_run ?es ?s))
              = count_list (actions (nexec NotifiedPulser_run ?es ?s)) (Checked False))
      \<and> count_list (actions (nexec NotifiedPulser_run ?es ?s)) Waited
            + pending (nexec NotifiedPulser_run ?es ?s)
          \<le> pending ?s + count_list ?es NWakeup
      \<and> length (ticks (nexec NotifiedPulser_run ?es ?s)) \<le> pending ?s + count_list ?es NWakeup"
    by (rule run [THEN conjunct2, THEN conjunct2, THEN conjunct2, THEN conjunct2,
          THEN conjunct1, THEN mp]) (simp add: st NotifiedPulser_new_def notifiable_new_def)
  have 6: "history (nexec NotifiedPulser_run ?quiet ?s) = history ?s"
    by (rule idle [THEN conjunct2, THEN conjunct2, THEN conjunct2, THEN conjunct2,
          THEN conjunct2, THEN conjunct1, THEN mp]) (simp add: st NotifiedPulser_new_def notifiable_new_def)
  have 7: "pc (nexec NotifiedPulser_run ?two ?s) \<noteq> Done
      \<and> count_list (actions (nexec NotifiedPulser_run ?two ?s)) Waited
          = length (ticks (nexec NotifiedPulser_run ?two ?s))
            + (if pc (nexec NotifiedPulser_run ?two ?s) = Check
                  \<or> pc (nexec NotifiedPulser_run ?two ?s) = Tick then 1 else 0)"
    by (rule busy [THEN conjunct2, THEN conjunct2, THEN conjunct2, THEN conjunct2,
          THEN conjunct2, THEN conjunct2, THEN conjunct1, THEN mp]) (simp add: st NotifiedPulser_new_def notifiable_new_def)
  have 8: "length (ticks (nexec NotifiedPulser_run (wakeup_rounds ?rs) ?s))
      = length (ticks ?s) + length ?rs"
    by (rule run [THEN conjunct2, THEN conjunct2, THEN conjunct2, THEN conjunct2,
          THEN conjunct2, THEN conjunct2, THEN conjunct2, THEN mp])
       (simp add: st NotifiedPulser_new_def notifiable_new_def paced_def steps_def)
  have c: "pending ?s + count_list ?es NWakeup = 0 + 3"
    by (simp add: NotifiedPulser_new_def notifiable_new_def pending_def)
  have n: "\<not> m_interrupted (NotifiedPulser_new 0\<lparr>pc := Check\<rparr>)"
    by (simp add: NotifiedPulser_new_def)
  from 2 have b2: "pc (turn NotifiedPulser_run (wakeup ?s)) = Check" by simp
  from 3 n have b3: "pc (turn NotifiedPulser_run (NotifiedPulser_new 0\<lparr>pc := Check\<rparr>)) = Tick"
    by simp
  from 4 have b4: "pc (turn NotifiedPulser_run (NotifiedPulser_new 0\<lparr>pc := Tick\<rparr>)) = Entry"
    by simp
  from 5 have b5: "iterations Waited (actions (nexec NotifiedPulser_run ?es ?s))"
    and e5: "length (ticks (nexec NotifiedPulser_run ?es ?s)) \<le> 0 + 3"
    unfolding c by simp_all
  from 6 have b6: "history (nexec NotifiedPulser_run ?quiet ?s) = []" unfolding st by simp
  from 7 have b7: "count_list (actions (nexec NotifiedPulser_run ?two ?s)) Waited = 1 + 1"
    unfolding ev by simp
  from 8 have b8: "length (ticks (nexec NotifiedPulser_run (wakeup_rounds ?rs) ?s)) = 3"
    unfolding st by simp
  from 1 b2 b3 b4 ev(1) b5 e5 b6 b7 b8 show ?thesis by (intro conjI)
qed

section \<open>Facts about ClockPulser\<close>


















section \<open>Facts about DelayedNotifiedPulser\<close>

lemma DelayedNotifiedPulser_turn:
  "turn DelayedNotifiedPulser_run s = (case pc s of
       Entry \<Rightarrow> if m_wake (m_notifiablelock s)
                then logged Waited (s\<lparr>m_notifiablelock := (m_notifiablelock s)\<lparr>m_wake := False\<rparr>, pc := Check\<rparr>)
                else s
     | Check \<Rightarrow> observe Done Tick s
     | Tick \<Rightarrow> tick Pause s
     | Pause \<Rightarrow> sleep_for (m_delay s) s
     | Asleep \<Rightarrow> if now s < wake_time s then s else logged Slept (s\<lparr>pc := Entry\<rparr>)
     | _ \<Rightarrow> s)"
  by (simp add: turn_def DelayedNotifiedPulser_run_def await_def awake_def wait_eq
      split: location.splits)

lemma DelayedNotifiedPulser_turn_delay:
  "m_delay (turn DelayedNotifiedPulser_run s) = m_delay s"
  by (cases "pc s") (simp_all add: DelayedNotifiedPulser_turn statement_defs)

lemma nfire_delay: "m_delay (nfire DelayedNotifiedPulser_run e s) = m_delay s"
  by (cases e) (simp_all add: DelayedNotifiedPulser_turn_delay call_defs)

lemma nexec_delay: "m_delay (nexec DelayedNotifiedPulser_run es s) = m_delay s"
  by (induction es arbitrary: s) (simp_all add: nexec_Nil nexec_Cons nfire_delay)

lemma dcycles_simps:
  "dcycles 0 = []"
  "dcycles (Suc k) = Waited # Checked False # Ticked # Slept # dcycles k"
  by (simp_all add: dcycles_def)

lemma dcycles_snoc: "dcycles k @ [Waited, Checked False, Ticked, Slept] = dcycles (Suc k)"
  by (induction k) (simp_all add: dcycles_simps)

lemma delayed_iterations_dcycles:
  "delayed_iterations (dcycles k @ rest) = delayed_iterations rest"
  by (induction k) (simp_all add: dcycles_simps)

lemma delayed_iterations_dcycles_only: "delayed_iterations (dcycles k)"
  using delayed_iterations_dcycles [of k "[]"] by simp

lemma dshaped_iterations: "dshaped l acts \<Longrightarrow> delayed_iterations acts"
  by (cases l)
     (auto simp: dshaped_def delayed_iterations_dcycles delayed_iterations_dcycles_only)

lemma dshaped_start: "dshaped Entry []"
  unfolding dshaped_def by (rule exI [of _ 0]) (simp add: dcycles_simps)

lemma dshaped_steps:
  "dshaped Entry acts \<Longrightarrow> dshaped Check (acts @ [Waited])"
  "dshaped Check acts \<Longrightarrow> dshaped (if b then Done else Tick) (acts @ [Checked b])"
  "dshaped Tick acts \<Longrightarrow> dshaped Pause (acts @ [Ticked])"
  "dshaped Pause acts \<Longrightarrow> dshaped Asleep acts"
  by (auto simp: dshaped_def)

lemma dshaped_slept:
  assumes "dshaped Asleep acts"
  shows "dshaped Entry (acts @ [Slept])"
proof -
  from assms obtain k where "acts = dcycles k @ [Waited, Checked False, Ticked]"
    by (auto simp: dshaped_def)
  then have "acts @ [Slept] = dcycles (Suc k)"
    by (simp add: dcycles_snoc [symmetric])
  then show ?thesis unfolding dshaped_def by (intro exI [of _ "Suc k"]) simp
qed

lemma dshaped_turn:
  assumes "dshaped (pc s) (actions s)"
  shows "dshaped (pc (turn DelayedNotifiedPulser_run s)) (actions (turn DelayedNotifiedPulser_run s))"
proof (cases "pc s")
  case Entry
  with assms show ?thesis
    by (simp add: DelayedNotifiedPulser_turn history_simps dshaped_steps)
next
  case Check
  with assms dshaped_steps(2) [of "actions s" "m_interrupted s"] show ?thesis
    by (simp add: DelayedNotifiedPulser_turn observe_def history_simps)
next
  case Tick
  with assms show ?thesis
    by (simp add: DelayedNotifiedPulser_turn tick_def history_simps dshaped_steps)
next
  case Pause
  with assms show ?thesis
    by (simp add: DelayedNotifiedPulser_turn sleep_for_def history_simps dshaped_steps)
next
  case Asleep
  with assms show ?thesis
    by (simp add: DelayedNotifiedPulser_turn history_simps dshaped_slept)
qed (use assms in \<open>simp_all add: DelayedNotifiedPulser_turn\<close>)

lemma dshaped_nfire:
  assumes "dshaped (pc s) (actions s)"
  shows "dshaped (pc (nfire DelayedNotifiedPulser_run e s))
    (actions (nfire DelayedNotifiedPulser_run e s))"
proof (cases e)
  case NStep
  with assms show ?thesis by (simp add: dshaped_turn)
qed (use assms in \<open>simp_all add: call_defs history_simps\<close>)

lemma dshaped_nexec:
  "dshaped (pc s) (actions s) \<Longrightarrow>
     dshaped (pc (nexec DelayedNotifiedPulser_run es s))
       (actions (nexec DelayedNotifiedPulser_run es s))"
  by (induction es arbitrary: s) (simp_all add: nexec_Nil nexec_Cons dshaped_nfire)

lemma rested_snoc:
  "rested D (h @ [e]) \<longleftrightarrow>
     rested D h \<and> list_all (\<lambda>t. t + D \<le> fst e) (map fst (filter (\<lambda>e'. snd e' = Ticked) h))"
  by (induction h) auto

lemma rested_logged:
  "rested D (history s @ [(t, a)]) \<longleftrightarrow>
     rested D (history s) \<and> list_all (\<lambda>t'. t' + D \<le> t) (ticks s)"
  by (simp add: rested_snoc ticks_def)

lemma rested_spaced: "rested D h \<Longrightarrow> spaced D (map fst (filter (\<lambda>e. snd e = Ticked) h))"
proof (induction h)
  case Nil
  then show ?case by simp
next
  case (Cons e h)
  show ?case
  proof (cases "snd e = Ticked")
    case False
    with Cons show ?thesis by simp
  next
    case True
    show ?thesis
    proof (cases "map fst (filter (\<lambda>e. snd e = Ticked) h)")
      case Nil
      with True show ?thesis by simp
    next
      case (Cons t ts)
      then have "t \<in> set (map fst (filter (\<lambda>e. snd e = Ticked) h))" by simp
      then obtain e' where "e' \<in> set h" and "fst e' = t" by auto
      with True Cons.prems have "fst e + D \<le> t" by (auto simp: list_all_iff)
      with True Cons Cons.IH Cons.prems show ?thesis by simp
    qed
  qed
qed

lemma resting_turn:
  assumes "resting (m_delay s) s"
  shows "resting (m_delay s) (turn DelayedNotifiedPulser_run s)"
proof (cases "pc s")
  case Entry
  with assms show ?thesis
    by (simp add: resting_def DelayedNotifiedPulser_turn rested_logged history_simps)
next
  case Check
  with assms show ?thesis
    by (simp add: resting_def DelayedNotifiedPulser_turn observe_def rested_logged history_simps)
next
  case Tick
  with assms show ?thesis
    by (auto simp: resting_def DelayedNotifiedPulser_turn tick_def rested_logged history_simps
        list_all_iff)
next
  case Pause
  with assms show ?thesis
    by (auto simp: resting_def DelayedNotifiedPulser_turn sleep_for_def history_simps list_all_iff)
next
  case Asleep
  with assms show ?thesis
    by (auto simp: resting_def DelayedNotifiedPulser_turn rested_logged history_simps list_all_iff)
qed (use assms in \<open>simp_all add: DelayedNotifiedPulser_turn\<close>)

lemma resting_nfire:
  assumes "resting (m_delay s) s"
  shows "resting (m_delay s) (nfire DelayedNotifiedPulser_run e s)"
proof (cases e)
  case NStep
  with assms show ?thesis by (simp add: resting_turn)
next
  case (NElapse d)
  with assms show ?thesis
    by (cases "pc s") (auto simp: resting_def history_simps list_all_iff)
next
  case NInterrupt
  with assms show ?thesis
    by (cases "pc s") (simp_all add: resting_def call_defs history_simps)
next
  case NWakeup
  with assms show ?thesis
    by (cases "pc s") (simp_all add: resting_def call_defs history_simps)
qed

lemma resting_nexec:
  assumes "resting D s" and "D = m_delay s"
  shows "resting D (nexec DelayedNotifiedPulser_run es s)"
  using assms
proof (induction es arbitrary: s)
  case Nil
  then show ?case by (simp add: nexec_Nil)
next
  case (Cons e es)
  from Cons.prems have 1: "resting D (nfire DelayedNotifiedPulser_run e s)"
    by (simp add: resting_nfire)
  from Cons.prems(2) have 2: "D = m_delay (nfire DelayedNotifiedPulser_run e s)"
    by (simp add: nfire_delay)
  from Cons.IH [OF 1 2] show ?case by (simp add: nexec_Cons)
qed

lemma budget_turn:
  "length (ticks (turn DelayedNotifiedPulser_run s)) + budget (turn DelayedNotifiedPulser_run s)
     \<le> length (ticks s) + budget s"
  by (cases "pc s")
     (simp_all add: budget_def DelayedNotifiedPulser_turn observe_def tick_def sleep_for_def
       history_simps)

lemma budget_nfire:
  assumes "e \<noteq> NWakeup"
  shows "length (ticks (nfire DelayedNotifiedPulser_run e s)) + budget (nfire DelayedNotifiedPulser_run e s)
     \<le> length (ticks s) + budget s"
proof (cases e)
  case NStep
  then show ?thesis by (simp add: budget_turn)
qed (use assms in \<open>simp_all add: budget_def call_defs history_simps\<close>)

lemma budget_nexec:
  assumes "NWakeup \<notin> set es"
  shows "length (ticks (nexec DelayedNotifiedPulser_run es s)) + budget (nexec DelayedNotifiedPulser_run es s)
     \<le> length (ticks s) + budget s"
  using assms
proof (induction es arbitrary: s)
  case Nil
  then show ?case by (simp add: nexec_Nil)
next
  case (Cons e es)
  from Cons.prems have "e \<noteq> NWakeup" and "NWakeup \<notin> set es" by auto
  from budget_nfire [OF this(1), of s] Cons.IH [OF this(2), of "nfire DelayedNotifiedPulser_run e s"]
  show ?case by (simp add: nexec_Cons)
qed

lemma no_step_nfire:
  assumes "e \<noteq> NStep"
  shows "pc (nfire run e s) = pc s \<and> ticks (nfire run e s) = ticks s"
  using assms by (cases e) (simp_all add: call_defs history_simps)

lemma no_step_nexec:
  assumes "NStep \<notin> set es"
  shows "pc (nexec run es s) = pc s \<and> ticks (nexec run es s) = ticks s"
  using assms
proof (induction es arbitrary: s)
  case Nil
  then show ?case by (simp add: nexec_Nil)
next
  case (Cons e es)
  from Cons.prems have "e \<noteq> NStep" and "NStep \<notin> set es" by auto
  from no_step_nfire [OF this(1), of run s] Cons.IH [OF this(2), of "nfire run e s"]
  show ?case by (simp add: nexec_Cons)
qed

text \<open>
  C5. From the start of the loop on, the history of a delayed pulser is a sequence of
  iterations in which the tick is followed by the return of a sleep before the next
  \<open>wait()\<close> returns; whatever the thread does after a tick it does at least \<open>m_delay\<close>
  after the invocation of that tick, so consecutive ticks are at least \<open>m_delay\<close> apart.
  And while the thread is in its pause after a tick (about to sleep, or asleep), any
  burst of events in which it takes no step, with as many \<open>wakeup()\<close> calls as one
  likes, is followed by at most one further tick for as long as no new wakeup arrives.
\<close>

theorem DelayedNotifiedPulser_rests_after_each_tick:
  fixes s :: "'a DelayedNotifiedPulser_scheme"
  shows "(pc s = Entry \<and> history s = [] \<longrightarrow>
            delayed_iterations (actions (nexec DelayedNotifiedPulser_run es s))
            \<and> rested (m_delay s) (history (nexec DelayedNotifiedPulser_run es s))
            \<and> spaced (m_delay s) (ticks (nexec DelayedNotifiedPulser_run es s)))
    \<and> ((pc s = Pause \<or> pc s = Asleep) \<and> NStep \<notin> set burst \<and> NWakeup \<notin> set es \<longrightarrow>
          length (ticks (nexec DelayedNotifiedPulser_run (burst @ es) s)) \<le> length (ticks s) + 1)"
proof -
  have 1: "pc s = Entry \<and> history s = [] \<longrightarrow>
      delayed_iterations (actions (nexec DelayedNotifiedPulser_run es s))
      \<and> rested (m_delay s) (history (nexec DelayedNotifiedPulser_run es s))
      \<and> spaced (m_delay s) (ticks (nexec DelayedNotifiedPulser_run es s))"
  proof
    assume a: "pc s = Entry \<and> history s = []"
    let ?s' = "nexec DelayedNotifiedPulser_run es s"
    from a have "dshaped (pc s) (actions s)" by (simp add: actions_def dshaped_start)
    then have "dshaped (pc ?s') (actions ?s')" by (rule dshaped_nexec)
    then have i: "delayed_iterations (actions ?s')" by (rule dshaped_iterations)
    from a have "resting (m_delay s) s" by (simp add: resting_def ticks_def)
    then have "resting (m_delay s) ?s'" by (rule resting_nexec) simp
    then have r: "rested (m_delay s) (history ?s')" by (simp add: resting_def)
    then have "spaced (m_delay s) (ticks ?s')" unfolding ticks_def by (rule rested_spaced)
    with i r show "delayed_iterations (actions ?s') \<and> rested (m_delay s) (history ?s')
      \<and> spaced (m_delay s) (ticks ?s')" by simp
  qed
  have 2: "(pc s = Pause \<or> pc s = Asleep) \<and> NStep \<notin> set burst \<and> NWakeup \<notin> set es \<longrightarrow>
      length (ticks (nexec DelayedNotifiedPulser_run (burst @ es) s)) \<le> length (ticks s) + 1"
  proof
    assume a: "(pc s = Pause \<or> pc s = Asleep) \<and> NStep \<notin> set burst \<and> NWakeup \<notin> set es"
    let ?s1 = "nexec DelayedNotifiedPulser_run burst s"
    from a no_step_nexec [of burst DelayedNotifiedPulser_run s]
    have p: "pc ?s1 = pc s" and t: "ticks ?s1 = ticks s" by simp_all
    from a p have "budget ?s1 \<le> 1" by (auto simp: budget_def)
    moreover from a budget_nexec [of es ?s1]
    have "length (ticks (nexec DelayedNotifiedPulser_run es ?s1)) \<le> length (ticks ?s1) + budget ?s1"
      by simp
    ultimately show "length (ticks (nexec DelayedNotifiedPulser_run (burst @ es) s))
        \<le> length (ticks s) + 1"
      by (simp add: nexec_append t)
  qed
  from 1 2 show ?thesis by (intro conjI)
qed

theorem DelayedNotifiedPulser_rests_after_each_tick_witness:
  "ticks (nexec DelayedNotifiedPulser_run
      [NWakeup, NStep, NStep, NStep, NStep, NWakeup, NWakeup, NElapse 10, NStep, NStep, NStep, NStep]
      (DelayedNotifiedPulser_new 0 10\<lparr>pc := Entry\<rparr>)) = [0, 10]
   \<and> spaced 10 (ticks (nexec DelayedNotifiedPulser_run
      [NWakeup, NStep, NStep, NStep, NStep, NWakeup, NWakeup, NElapse 10, NStep, NStep, NStep, NStep]
      (DelayedNotifiedPulser_new 0 10\<lparr>pc := Entry\<rparr>)))
   \<and> delayed_iterations (actions (nexec DelayedNotifiedPulser_run
      [NWakeup, NStep, NStep, NStep, NStep, NWakeup, NWakeup, NElapse 10, NStep, NStep, NStep, NStep]
      (DelayedNotifiedPulser_new 0 10\<lparr>pc := Entry\<rparr>)))
   \<and> length (ticks (nexec DelayedNotifiedPulser_run
      ([NWakeup, NElapse 3, NWakeup, NWakeup]
        @ [NElapse 7, NStep, NStep, NStep, NStep, NStep, NElapse 10, NStep, NStep, NStep])
      (DelayedNotifiedPulser_new 0 10\<lparr>pc := Asleep, wake_time := 10\<rparr>))) = 1
   \<and> length (ticks (nexec DelayedNotifiedPulser_run
      ([NWakeup, NElapse 3, NWakeup, NWakeup]
        @ [NElapse 7, NStep, NStep, NStep, NStep, NStep, NElapse 10, NStep, NStep, NStep])
      (DelayedNotifiedPulser_new 0 10\<lparr>pc := Asleep, wake_time := 10\<rparr>))) \<le> 0 + 1"
proof -
  let ?es = "[NWakeup, NStep, NStep, NStep, NStep, NWakeup, NWakeup, NElapse 10, NStep, NStep, NStep, NStep]"
  let ?s = "DelayedNotifiedPulser_new 0 10\<lparr>pc := Entry\<rparr>"
  let ?a = "DelayedNotifiedPulser_new 0 10\<lparr>pc := Asleep, wake_time := 10\<rparr>"
  let ?burst = "[NWakeup, NElapse 3, NWakeup, NWakeup]"
  let ?rest = "[NElapse 7, NStep, NStep, NStep, NStep, NStep, NElapse 10, NStep, NStep, NStep]"
  note run = DelayedNotifiedPulser_rests_after_each_tick [where s = ?s and es = ?es]
  note win = DelayedNotifiedPulser_rests_after_each_tick
    [where s = ?a and burst = ?burst and es = ?rest]
  have ev: "ticks (nexec DelayedNotifiedPulser_run ?es ?s) = [0, 10]"
    "length (ticks (nexec DelayedNotifiedPulser_run (?burst @ ?rest) ?a)) = 1"
    by (simp_all add: nexec_def DelayedNotifiedPulser_turn call_defs sleep_for_def observe_def
        tick_def logged_def DelayedNotifiedPulser_new_def notifiable_new_def ticks_def)
  have st: "m_delay ?s = 10" "ticks ?a = []"
    by (simp_all add: DelayedNotifiedPulser_new_def ticks_def)
  have 1: "delayed_iterations (actions (nexec DelayedNotifiedPulser_run ?es ?s))
      \<and> rested (m_delay ?s) (history (nexec DelayedNotifiedPulser_run ?es ?s))
      \<and> spaced (m_delay ?s) (ticks (nexec DelayedNotifiedPulser_run ?es ?s))"
    by (rule run [THEN conjunct1, THEN mp]) (simp add: DelayedNotifiedPulser_new_def)
  have 2: "length (ticks (nexec DelayedNotifiedPulser_run (?burst @ ?rest) ?a)) \<le> length (ticks ?a) + 1"
    by (rule win [THEN conjunct2, THEN mp]) simp
  from 1 have 3: "spaced 10 (ticks (nexec DelayedNotifiedPulser_run ?es ?s))"
    and 4: "delayed_iterations (actions (nexec DelayedNotifiedPulser_run ?es ?s))"
    unfolding st by simp_all
  from 2 have 5: "length (ticks (nexec DelayedNotifiedPulser_run (?burst @ ?rest) ?a)) \<le> 0 + 1"
    unfolding st by simp
  from ev 3 4 5 show ?thesis by (intro conjI)
qed

section \<open>Facts about SelfDeletingTimer\<close>

lemma SelfDeletingTimer_turn:
  "turn SelfDeletingTimer_run s = (case pc s of
       Entry \<Rightarrow> sleep_for (m_interval s) s
     | Asleep \<Rightarrow> if now s < wake_time s then s else logged Slept (s\<lparr>pc := Check\<rparr>)
     | Check \<Rightarrow> observe Delete Tick s
     | Tick \<Rightarrow> tick Delete s
     | Delete \<Rightarrow> logged Deleted (s\<lparr>deleted := True, pc := Done\<rparr>)
     | _ \<Rightarrow> s)"
  by (simp add: turn_def SelfDeletingTimer_run_def awake_def split: location.splits)

lemma logged_timer:
  "m_interval (logged a s) = m_interval s"
  "deleted (logged a s) = deleted s"
  "actions (s\<lparr>deleted := b\<rparr>) = actions s"
  "ticks (s\<lparr>deleted := b\<rparr>) = ticks s"
  by (simp_all add: logged_def actions_def ticks_def)

lemmas timer_simps = SelfDeletingTimer_turn sleep_for_def observe_def tick_def history_simps
  logged_timer

lemma timing_turn:
  assumes "timing T t0 s"
  shows "timing T t0 (turn SelfDeletingTimer_run s)"
proof (cases "pc s")
  case Entry
  with assms show ?thesis by (simp add: timing_def timer_simps)
next
  case Asleep
  with assms show ?thesis by (simp add: timing_def timer_simps actions_def ticks_def)
next
  case Check
  with assms show ?thesis by (simp add: timing_def timer_simps)
next
  case Tick
  with assms show ?thesis by (simp add: timing_def timer_simps)
next
  case Delete
  with assms show ?thesis by (auto simp: timing_def timer_simps)
qed (use assms in \<open>simp_all add: timing_def timer_simps\<close>)

lemma timing_tfire:
  assumes "timing T t0 s" and "tfire e s = Some s'"
  shows "timing T t0 s'"
proof (cases e)
  case Step
  with assms show ?thesis by (auto simp: timing_turn)
next
  case Interrupt
  with assms have s': "s' = s\<lparr>m_interrupted := True\<rparr>"
    by (simp add: call_defs split: if_splits)
  from assms(1) show ?thesis unfolding s'
    by (cases "pc s") (auto simp: timing_def history_simps)
next
  case (Elapse d)
  with assms have s': "s' = s\<lparr>now := now s + d\<rparr>" by simp
  from assms(1) show ?thesis unfolding s'
    by (cases "pc s") (auto simp: timing_def history_simps)
qed

lemma timing_texec:
  assumes "timing T t0 s" and "texec es s = Some s'"
  shows "timing T t0 s'"
  using assms
proof (induction es arbitrary: s)
  case Nil
  then show ?case by simp
next
  case (Cons e es)
  from Cons.prems(2) obtain s1 where 1: "tfire e s = Some s1" and 2: "texec es s1 = Some s'"
    by (auto split: option.splits)
  from Cons.prems(1) 1 have "timing T t0 s1" by (rule timing_tfire)
  from this 2 show ?case by (rule Cons.IH)
qed

lemma timer_turn_now: "now (turn SelfDeletingTimer_run s) = now s"
  by (cases "pc s") (simp_all add: timer_simps)

lemma now_tfire: "tfire e s = Some s' \<Longrightarrow> now s' = now s + elapsed [e]"
  by (cases e) (auto simp: timer_turn_now call_defs split: if_splits)

lemma elapsed_Cons: "elapsed (e # es) = elapsed [e] + elapsed es"
  by (cases e) simp_all

lemma now_texec: "texec es s = Some s' \<Longrightarrow> now s' = now s + elapsed es"
proof (induction es arbitrary: s)
  case Nil
  then show ?case by simp
next
  case (Cons e es)
  from Cons.prems obtain s1 where 1: "tfire e s = Some s1" and 2: "texec es s1 = Some s'"
    by (auto split: option.splits)
  from now_tfire [OF 1] Cons.IH [OF 2] show ?case
    by (subst elapsed_Cons) simp
qed

lemma quiet_turn: "quiet s \<Longrightarrow> quiet (turn SelfDeletingTimer_run s)"
  by (cases "pc s") (auto simp: quiet_def timer_simps)

lemma quiet_tfire:
  assumes "quiet s" and "tfire e s = Some s'"
  shows "quiet s'"
proof (cases e)
  case Step
  with assms show ?thesis by (auto simp: quiet_turn)
qed (use assms in \<open>auto simp: quiet_def call_defs history_simps split: if_splits\<close>)

lemma quiet_texec:
  assumes "quiet s" and "texec es s = Some s'"
  shows "quiet s'"
  using assms
proof (induction es arbitrary: s)
  case Nil
  then show ?case by simp
next
  case (Cons e es)
  from Cons.prems(2) obtain s1 where 1: "tfire e s = Some s1" and 2: "texec es s1 = Some s'"
    by (auto split: option.splits)
  from Cons.prems(1) 1 have "quiet s1" by (rule quiet_tfire)
  from this 2 show ?case by (rule Cons.IH)
qed

lemma timer_turn_flag: "m_interrupted (turn SelfDeletingTimer_run s) = m_interrupted s"
  by (cases "pc s") (simp_all add: timer_simps)

lemma uninterrupted_texec:
  assumes "Interrupt \<notin> set es"
  shows "\<exists>s'. texec es s = Some s' \<and> m_interrupted s' = m_interrupted s"
  using assms
proof (induction es arbitrary: s)
  case Nil
  then show ?case by simp
next
  case (Cons e es)
  from Cons.prems have e: "e \<noteq> Interrupt" and es: "Interrupt \<notin> set es" by auto
  from e obtain s1 where 1: "tfire e s = Some s1" and f: "m_interrupted s1 = m_interrupted s"
    by (cases e) (simp_all add: timer_turn_flag)
  from Cons.IH [OF es, of s1] 1 f show ?case by auto
qed

lemma timer_first_turn:
  assumes "timing T t0 s"
  shows "awake_by ((turn SelfDeletingTimer_run s)\<lparr>now := now (turn SelfDeletingTimer_run s) + T\<rparr>)"
proof (cases "pc s")
  case Entry
  with assms show ?thesis by (simp add: awake_by_def timing_def timer_simps)
next
  case Asleep
  with assms show ?thesis by (simp add: awake_by_def timing_def timer_simps)
next
  case Check
  then show ?thesis by (simp add: awake_by_def timer_simps)
next
  case Tick
  then show ?thesis by (simp add: awake_by_def timer_simps)
next
  case Delete
  then show ?thesis by (simp add: awake_by_def timer_simps)
next
  case Done
  then show ?thesis by (simp add: awake_by_def timer_simps)
qed (use assms in \<open>simp_all add: timing_def\<close>)

lemma awake_by_turn:
  assumes "awake_by s"
  shows "awake_by (turn SelfDeletingTimer_run s)"
    and "remaining (turn SelfDeletingTimer_run s) \<le> remaining s - 1"
proof -
  from assms show "awake_by (turn SelfDeletingTimer_run s)"
    by (cases "pc s") (simp_all add: awake_by_def timer_simps)
  from assms show "remaining (turn SelfDeletingTimer_run s) \<le> remaining s - 1"
    by (cases "pc s") (simp_all add: awake_by_def remaining_def timer_simps)
qed

lemma awake_by_four_turns:
  assumes "awake_by s"
  shows "remaining (turn SelfDeletingTimer_run (turn SelfDeletingTimer_run
    (turn SelfDeletingTimer_run (turn SelfDeletingTimer_run s)))) = 0"
proof -
  let ?t = "turn SelfDeletingTimer_run"
  have r: "remaining s \<le> 4" using assms
    by (cases "pc s") (simp_all add: remaining_def awake_by_def)
  note a1 = awake_by_turn [OF assms]
  note a2 = awake_by_turn [OF a1(1)]
  note a3 = awake_by_turn [OF a2(1)]
  note a4 = awake_by_turn [OF a3(1)]
  from r a1(2) a2(2) a3(2) a4(2) show ?thesis by simp
qed

lemma timing_completes:
  assumes "timing T t0 s"
  shows "\<exists>s'. texec [Step, Elapse T, Step, Step, Step, Step] s = Some s' \<and> pc s' = Done"
proof -
  let ?t = "turn SelfDeletingTimer_run"
  let ?s1 = "(?t s)\<lparr>now := now (?t s) + T\<rparr>"
  let ?s' = "?t (?t (?t (?t ?s1)))"
  have run: "texec [Step, Elapse T, Step, Step, Step, Step] s = Some ?s'" by simp
  with assms have "timing T t0 ?s'" by (rule timing_texec)
  moreover from assms have "awake_by ?s1" by (rule timer_first_turn)
  then have "remaining ?s' = 0" by (rule awake_by_four_turns)
  moreover have "awake_by ?s'"
    using \<open>awake_by ?s1\<close> by (intro awake_by_turn(1))
  ultimately have "pc ?s' = Done"
    by (cases "pc ?s'") (simp_all add: timing_def remaining_def awake_by_def)
  with run show ?thesis by simp
qed

lemma timing_facts:
  assumes "timing T t0 s"
  shows "length (ticks s) \<le> 1"
    and "list_all (\<lambda>t. t0 + T \<le> t) (ticks s)"
    and "deleted s \<longleftrightarrow> pc s = Done"
    and "pc s = Done \<and> \<not> m_interrupted s \<longrightarrow> (\<exists>t. ticks s = [t] \<and> t0 + T \<le> t)"
    and "now s < t0 + T \<longrightarrow> (pc s = Entry \<or> pc s = Asleep) \<and> ticks s = [] \<and> \<not> deleted s"
proof -
  from assms show "deleted s \<longleftrightarrow> pc s = Done" by (simp add: timing_def)
  from assms show "length (ticks s) \<le> 1"
    by (cases "pc s") (auto simp: timing_def ticks_def)
  from assms show "list_all (\<lambda>t. t0 + T \<le> t) (ticks s)"
    by (cases "pc s") (auto simp: timing_def ticks_def)
  from assms show "pc s = Done \<and> \<not> m_interrupted s \<longrightarrow> (\<exists>t. ticks s = [t] \<and> t0 + T \<le> t)"
    by (cases "pc s") (auto simp: timing_def)
  from assms show "now s < t0 + T \<longrightarrow> (pc s = Entry \<or> pc s = Asleep) \<and> ticks s = [] \<and> \<not> deleted s"
    by (cases "pc s") (auto simp: timing_def ticks_def)
qed

lemma timing_actions:
  assumes "timing T t0 s"
  shows "\<exists>k. actions s = take k [Slept, Checked False, Ticked, Deleted]
    \<or> actions s = take k [Slept, Checked True, Deleted]"
proof (cases "pc s")
  case Entry
  with assms show ?thesis by (intro exI [of _ 0]) (simp add: timing_def actions_def)
next
  case Asleep
  with assms show ?thesis by (intro exI [of _ 0]) (simp add: timing_def actions_def)
next
  case Check
  with assms show ?thesis by (intro exI [of _ 1]) (simp add: timing_def)
next
  case Tick
  with assms show ?thesis by (intro exI [of _ 2]) (simp add: timing_def)
next
  case Delete
  with assms consider "actions s = [Slept, Checked False, Ticked]" | "actions s = [Slept, Checked True]"
    by (auto simp: timing_def)
  then show ?thesis
  proof cases
    case 1
    then show ?thesis by (intro exI [of _ 3]) (simp add: eval_nat_numeral)
  next
    case 2
    then show ?thesis by (intro exI [of _ 2]) (simp add: eval_nat_numeral)
  qed
next
  case Done
  with assms consider "actions s = [Slept, Checked False, Ticked, Deleted]"
    | "actions s = [Slept, Checked True, Deleted]"
    by (auto simp: timing_def)
  then show ?thesis
  proof cases
    case 1
    then show ?thesis by (intro exI [of _ 4]) simp
  next
    case 2
    then show ?thesis by (intro exI [of _ 3]) simp
  qed
qed (use assms in \<open>simp_all add: timing_def\<close>)

lemma timing_start:
  assumes "pc s = Entry" and "history s = []" and "\<not> deleted s"
  shows "timing (m_interval s) (now s) s"
  using assms by (simp add: timing_def)

lemma texec_before_interval:
  assumes "timing T t0 s" and "now s + elapsed es < t0 + T"
  shows "\<exists>s'. texec es s = Some s'"
  using assms
proof (induction es arbitrary: s)
  case Nil
  then show ?case by simp
next
  case (Cons e es)
  from Cons.prems(2) have "now s < t0 + T" by simp
  with timing_facts(5) [OF Cons.prems(1)] have "\<not> deleted s" by simp
  then obtain s1 where 1: "tfire e s = Some s1" by (cases e) simp_all
  with Cons.prems(1) have t: "timing T t0 s1" by (rule timing_tfire)
  from now_tfire [OF 1] Cons.prems(2) have "now s1 + elapsed es < t0 + T"
    by (subst (asm) elapsed_Cons) simp
  from Cons.IH [OF t this] 1 show ?case by simp
qed

lemma interrupt_before_interval:
  assumes "timing T t0 s" and "now s = t0" and "elapsed early < T"
  shows "\<exists>s2. texec (early @ [Interrupt]) s = Some s2 \<and> quiet s2"
proof -
  from assms have "now s + elapsed early < t0 + T" by simp
  with assms(1) obtain s1 where 1: "texec early s = Some s1"
    using texec_before_interval by blast
  with assms(1) have t: "timing T t0 s1" by (rule timing_texec)
  from now_texec [OF 1] assms(2,3) have "now s1 < t0 + T" by simp
  with timing_facts(5) [OF t]
  have p: "pc s1 = Entry \<or> pc s1 = Asleep" and k: "ticks s1 = []" and d: "\<not> deleted s1"
    by simp_all
  from p k have "quiet (interrupt s1)"
    by (auto simp: quiet_def call_defs history_simps)
  with 1 d show ?thesis by (simp add: texec_append)
qed

lemma texec_split:
  assumes "texec (es @ es') s = Some s'"
  obtains s1 where "texec es s = Some s1" and "texec es' s1 = Some s'"
  using assms by (auto simp: texec_append split: option.splits)

lemma SelfDeletingTimer_start_factory:
  "SelfDeletingTimer_start (factory clock T)
     = Returns (factory clock T\<lparr>m_thread := Empty, pc := Entry\<rparr>)"
  by (simp add: SelfDeletingTimer_start_def start_eq detach_eq and_then_def factory_def)

text \<open>
  C6. \<open>start()\<close> on a timer from the factory leaves it detached at the first statement
  of its routine. One turn of the routine: entering the sleep fixes its end at
  \<open>now + m_interval\<close>, and before that clock value the thread stays as it is; the test
  reads the cancellation flag as it is at that moment and goes to the callback exactly
  when it read false; the callback is invoked; \<open>delete this\<close> deletes the timer and
  the routine has returned. Over every run of events from the start, for as long as no
  caller touches a deleted timer: the callback is invoked at most once, never before
  \<open>m_interval\<close> after the start; the timer is deleted exactly when its routine has
  returned; the history is a beginning of sleep, test, callback, deletion or of sleep,
  test, deletion; and given the time and its turns the routine does return, with the
  timer deleted. An \<open>interrupt()\<close> that is called before \<open>m_interval\<close> has elapsed
  finds the timer alive, and whatever follows, the callback is never invoked. If
  \<open>interrupt()\<close> is never called, every run is defined, the routine returns, and when
  it has returned the callback has been invoked exactly once, at \<open>m_interval\<close> after
  the start or later.
\<close>

theorem SelfDeletingTimer_fires_at_most_once_then_deletes_itself:
  fixes s :: "'a SelfDeletingTimer_scheme"
  shows "(\<exists>s0. SelfDeletingTimer_start (factory clock T) = Returns s0
            \<and> pc s0 = Entry \<and> history s0 = [] \<and> \<not> deleted s0 \<and> \<not> m_interrupted s0
            \<and> \<not> active s0 \<and> m_interval s0 = T \<and> now s0 = clock)
    \<and> (pc s = Entry \<longrightarrow>
          pc (turn SelfDeletingTimer_run s) = Asleep
          \<and> wake_time (turn SelfDeletingTimer_run s) = now s + m_interval s)
    \<and> (pc s = Asleep \<and> now s < wake_time s \<longrightarrow> turn SelfDeletingTimer_run s = s)
    \<and> (pc s = Check \<longrightarrow>
          pc (turn SelfDeletingTimer_run s) = (if m_interrupted s then Delete else Tick)
          \<and> history (turn SelfDeletingTimer_run s) = history s @ [(now s, Checked (m_interrupted s))])
    \<and> (pc s = Tick \<longrightarrow>
          pc (turn SelfDeletingTimer_run s) = Delete
          \<and> history (turn SelfDeletingTimer_run s) = history s @ [(now s, Ticked)])
    \<and> (pc s = Delete \<longrightarrow>
          pc (turn SelfDeletingTimer_run s) = Done \<and> deleted (turn SelfDeletingTimer_run s))
    \<and> (pc s = Entry \<and> history s = [] \<and> \<not> deleted s \<longrightarrow>
          (\<forall>s'. texec es s = Some s' \<longrightarrow>
              length (ticks s') \<le> 1
              \<and> list_all (\<lambda>t. now s + m_interval s \<le> t) (ticks s')
              \<and> (deleted s' \<longleftrightarrow> pc s' = Done)
              \<and> (\<exists>k. actions s' = take k [Slept, Checked False, Ticked, Deleted]
                    \<or> actions s' = take k [Slept, Checked True, Deleted])
              \<and> (\<exists>s''. texec (es @ [Step, Elapse (m_interval s), Step, Step, Step, Step]) s = Some s''
                    \<and> pc s'' = Done \<and> deleted s''))
          \<and> (elapsed early < m_interval s \<longrightarrow>
                (\<exists>s2. texec (early @ [Interrupt]) s = Some s2 \<and> m_interrupted s2)
                \<and> (\<forall>s'. texec (early @ Interrupt # later) s = Some s' \<longrightarrow> ticks s' = []))
          \<and> (\<not> m_interrupted s \<and> Interrupt \<notin> set es \<longrightarrow>
                (\<exists>s'. texec es s = Some s'
                    \<and> (pc s' = Done \<longrightarrow> (\<exists>t. ticks s' = [t] \<and> now s + m_interval s \<le> t)))
                \<and> (\<exists>s'' t. texec (es @ [Step, Elapse (m_interval s), Step, Step, Step, Step]) s
                      = Some s''
                    \<and> pc s'' = Done \<and> deleted s'' \<and> ticks s'' = [t]
                    \<and> now s + m_interval s \<le> t)))"
proof -
  let ?t = "turn SelfDeletingTimer_run"
  let ?ext = "[Step, Elapse (m_interval s), Step, Step, Step, Step]"
  have 0: "\<exists>s0. SelfDeletingTimer_start (factory clock T) = Returns s0
      \<and> pc s0 = Entry \<and> history s0 = [] \<and> \<not> deleted s0 \<and> \<not> m_interrupted s0
      \<and> \<not> active s0 \<and> m_interval s0 = T \<and> now s0 = clock"
    by (simp add: SelfDeletingTimer_start_factory)
       (simp add: factory_def active_def std_thread_joinable_def)
  have 1: "pc s = Entry \<longrightarrow> pc (?t s) = Asleep \<and> wake_time (?t s) = now s + m_interval s"
    by (simp add: timer_simps)
  have 2: "pc s = Asleep \<and> now s < wake_time s \<longrightarrow> ?t s = s"
    by (simp add: timer_simps)
  have 3: "pc s = Check \<longrightarrow>
      pc (?t s) = (if m_interrupted s then Delete else Tick)
      \<and> history (?t s) = history s @ [(now s, Checked (m_interrupted s))]"
    by (simp add: timer_simps)
  have 4: "pc s = Tick \<longrightarrow> pc (?t s) = Delete \<and> history (?t s) = history s @ [(now s, Ticked)]"
    by (simp add: timer_simps)
  have 5: "pc s = Delete \<longrightarrow> pc (?t s) = Done \<and> deleted (?t s)"
    by (simp add: timer_simps)
  have 6: "(\<forall>s'. texec es s = Some s' \<longrightarrow>
          length (ticks s') \<le> 1
          \<and> list_all (\<lambda>t. now s + m_interval s \<le> t) (ticks s')
          \<and> (deleted s' \<longleftrightarrow> pc s' = Done)
          \<and> (\<exists>k. actions s' = take k [Slept, Checked False, Ticked, Deleted]
                \<or> actions s' = take k [Slept, Checked True, Deleted])
          \<and> (\<exists>s''. texec (es @ ?ext) s = Some s'' \<and> pc s'' = Done \<and> deleted s''))
      \<and> (elapsed early < m_interval s \<longrightarrow>
            (\<exists>s2. texec (early @ [Interrupt]) s = Some s2 \<and> m_interrupted s2)
            \<and> (\<forall>s'. texec (early @ Interrupt # later) s = Some s' \<longrightarrow> ticks s' = []))
      \<and> (\<not> m_interrupted s \<and> Interrupt \<notin> set es \<longrightarrow>
            (\<exists>s'. texec es s = Some s'
                \<and> (pc s' = Done \<longrightarrow> (\<exists>t. ticks s' = [t] \<and> now s + m_interval s \<le> t)))
            \<and> (\<exists>s'' t. texec (es @ ?ext) s = Some s''
                \<and> pc s'' = Done \<and> deleted s'' \<and> ticks s'' = [t]
                \<and> now s + m_interval s \<le> t))"
    if start: "pc s = Entry \<and> history s = [] \<and> \<not> deleted s"
  proof -
    from start have t: "timing (m_interval s) (now s) s" by (simp add: timing_start)
    have a: "length (ticks s') \<le> 1
        \<and> list_all (\<lambda>t. now s + m_interval s \<le> t) (ticks s')
        \<and> (deleted s' \<longleftrightarrow> pc s' = Done)
        \<and> (\<exists>k. actions s' = take k [Slept, Checked False, Ticked, Deleted]
              \<or> actions s' = take k [Slept, Checked True, Deleted])
        \<and> (\<exists>s''. texec (es @ ?ext) s = Some s'' \<and> pc s'' = Done \<and> deleted s'')"
      if run: "texec es s = Some s'" for s'
    proof -
      from t run have t': "timing (m_interval s) (now s) s'" by (rule timing_texec)
      from timing_completes [OF t'] obtain s''
        where ext: "texec ?ext s' = Some s''" and d: "pc s'' = Done" by blast
      from t' ext have "timing (m_interval s) (now s) s''" by (rule timing_texec)
      with d have "deleted s''" by (simp add: timing_facts(3))
      with run ext d have "\<exists>s''. texec (es @ ?ext) s = Some s'' \<and> pc s'' = Done \<and> deleted s''"
        by (simp add: texec_append)
      with timing_facts(1,2,3) [OF t'] timing_actions [OF t'] show ?thesis by simp
    qed
    have b: "(\<exists>s2. texec (early @ [Interrupt]) s = Some s2 \<and> m_interrupted s2)
        \<and> (\<forall>s'. texec (early @ Interrupt # later) s = Some s' \<longrightarrow> ticks s' = [])"
      if early: "elapsed early < m_interval s"
    proof -
      from interrupt_before_interval [OF t refl early] obtain s2
        where i: "texec (early @ [Interrupt]) s = Some s2" and q: "quiet s2" by blast
      have "ticks s' = []" if run: "texec (early @ Interrupt # later) s = Some s'" for s'
      proof -
        from run have "texec ((early @ [Interrupt]) @ later) s = Some s'" by simp
        then obtain s1 where "texec (early @ [Interrupt]) s = Some s1"
          and l: "texec later s1 = Some s'" by (rule texec_split)
        with i have "s1 = s2" by simp
        with q l have "quiet s'" by (simp add: quiet_texec)
        then show ?thesis by (simp add: quiet_def)
      qed
      with i q show ?thesis by (auto simp: quiet_def)
    qed
    have c: "(\<exists>s'. texec es s = Some s'
          \<and> (pc s' = Done \<longrightarrow> (\<exists>t. ticks s' = [t] \<and> now s + m_interval s \<le> t)))
        \<and> (\<exists>s'' t. texec (es @ ?ext) s = Some s''
            \<and> pc s'' = Done \<and> deleted s'' \<and> ticks s'' = [t]
            \<and> now s + m_interval s \<le> t)"
      if free: "\<not> m_interrupted s \<and> Interrupt \<notin> set es"
    proof -
      from free uninterrupted_texec [of es s] obtain s'
        where run: "texec es s = Some s'" and f: "\<not> m_interrupted s'" by auto
      from t run have t': "timing (m_interval s) (now s) s'" by (rule timing_texec)
      from timing_facts(4) [OF t'] f
      have once: "pc s' = Done \<longrightarrow> (\<exists>t. ticks s' = [t] \<and> now s + m_interval s \<le> t)" by simp
      from timing_completes [OF t'] obtain s''
        where ext: "texec ?ext s' = Some s''" and d: "pc s'' = Done" by blast
      from t' ext have t'': "timing (m_interval s) (now s) s''" by (rule timing_texec)
      from uninterrupted_texec [of ?ext s'] ext f have f'': "\<not> m_interrupted s''" by simp
      from timing_facts(4) [OF t''] d f'' obtain tk
        where "ticks s'' = [tk]" and "now s + m_interval s \<le> tk" by auto
      moreover from t'' d have "deleted s''" by (simp add: timing_facts(3))
      moreover from run ext have "texec (es @ ?ext) s = Some s''" by (simp add: texec_append)
      ultimately show ?thesis using run once d by blast
    qed
    from a b c show ?thesis by blast
  qed
  from 0 1 2 3 4 5 6 show ?thesis by blast
qed

theorem SelfDeletingTimer_fires_at_most_once_then_deletes_itself_witness:
  "(\<exists>s0. SelfDeletingTimer_start (factory 0 5) = Returns s0 \<and> pc s0 = Entry \<and> m_interval s0 = 5)
   \<and> (\<exists>s'' t. texec ([] @ [Step, Elapse 5, Step, Step, Step, Step])
          (factory 0 5\<lparr>m_thread := Empty, pc := Entry\<rparr>) = Some s''
        \<and> pc s'' = Done \<and> deleted s'' \<and> ticks s'' = [t] \<and> 0 + 5 \<le> t)
   \<and> elapsed [Step, Elapse 3] < 5
   \<and> (\<exists>s'. texec ([Step, Elapse 3] @ Interrupt # [Elapse 2, Step, Step, Step, Step])
          (factory 0 5\<lparr>m_thread := Empty, pc := Entry\<rparr>) = Some s'
        \<and> ticks s' = [] \<and> deleted s')"
proof -
  let ?s = "factory 0 5\<lparr>m_thread := Empty, pc := Entry\<rparr>"
  note alone = SelfDeletingTimer_fires_at_most_once_then_deletes_itself
    [where s = ?s and es = "[]" and clock = 0 and T = 5 and early = "[Step, Elapse 3]"
      and later = "[Elapse 2, Step, Step, Step, Step]"]
  have st: "pc ?s = Entry \<and> history ?s = [] \<and> \<not> deleted ?s"
    "\<not> m_interrupted ?s" "m_interval ?s = 5" "now ?s = 0"
    by (simp_all add: factory_def)
  have early: "elapsed [Step, Elapse 3] < m_interval ?s" by (simp add: factory_def)
  have ev: "\<exists>s'. texec ([Step, Elapse 3] @ Interrupt # [Elapse 2, Step, Step, Step, Step]) ?s = Some s'
      \<and> deleted s'"
    by (simp add: turn_def SelfDeletingTimer_run_def statement_defs call_defs factory_def)
  from alone have 0: "\<exists>s0. SelfDeletingTimer_start (factory 0 5) = Returns s0
      \<and> pc s0 = Entry \<and> history s0 = [] \<and> \<not> deleted s0 \<and> \<not> m_interrupted s0
      \<and> \<not> active s0 \<and> m_interval s0 = 5 \<and> now s0 = 0"
    by (rule conjunct1)
  have 6: "(\<forall>s'. texec [] ?s = Some s' \<longrightarrow>
          length (ticks s') \<le> 1
          \<and> list_all (\<lambda>t. now ?s + m_interval ?s \<le> t) (ticks s')
          \<and> (deleted s' \<longleftrightarrow> pc s' = Done)
          \<and> (\<exists>k. actions s' = take k [Slept, Checked False, Ticked, Deleted]
                \<or> actions s' = take k [Slept, Checked True, Deleted])
          \<and> (\<exists>s''. texec ([] @ [Step, Elapse (m_interval ?s), Step, Step, Step, Step]) ?s = Some s''
                \<and> pc s'' = Done \<and> deleted s''))
      \<and> (elapsed [Step, Elapse 3] < m_interval ?s \<longrightarrow>
            (\<exists>s2. texec ([Step, Elapse 3] @ [Interrupt]) ?s = Some s2 \<and> m_interrupted s2)
            \<and> (\<forall>s'. texec ([Step, Elapse 3] @ Interrupt # [Elapse 2, Step, Step, Step, Step]) ?s = Some s'
                  \<longrightarrow> ticks s' = []))
      \<and> (\<not> m_interrupted ?s \<and> Interrupt \<notin> set [] \<longrightarrow>
            (\<exists>s'. texec [] ?s = Some s'
                \<and> (pc s' = Done \<longrightarrow> (\<exists>t. ticks s' = [t] \<and> now ?s + m_interval ?s \<le> t)))
            \<and> (\<exists>s'' t. texec ([] @ [Step, Elapse (m_interval ?s), Step, Step, Step, Step]) ?s
                  = Some s''
                \<and> pc s'' = Done \<and> deleted s'' \<and> ticks s'' = [t]
                \<and> now ?s + m_interval ?s \<le> t))"
    by (rule alone [THEN conjunct2, THEN conjunct2, THEN conjunct2, THEN conjunct2,
          THEN conjunct2, THEN conjunct2, THEN mp]) (rule st(1))
  from 6 early have a: "\<forall>s'. texec ([Step, Elapse 3] @ Interrupt # [Elapse 2, Step, Step, Step, Step]) ?s = Some s'
      \<longrightarrow> ticks s' = []"
    by blast
  from 6 st(2) have "\<exists>s'' t. texec ([] @ [Step, Elapse (m_interval ?s), Step, Step, Step, Step]) ?s
        = Some s''
      \<and> pc s'' = Done \<and> deleted s'' \<and> ticks s'' = [t] \<and> now ?s + m_interval ?s \<le> t"
    by simp
  then have b: "\<exists>s'' t. texec ([] @ [Step, Elapse 5, Step, Step, Step, Step]) ?s = Some s''
      \<and> pc s'' = Done \<and> deleted s'' \<and> ticks s'' = [t] \<and> 0 + 5 \<le> t"
    unfolding st(3,4) .
  from ev a have c: "\<exists>s'. texec ([Step, Elapse 3] @ Interrupt # [Elapse 2, Step, Step, Step, Step]) ?s = Some s'
      \<and> ticks s' = [] \<and> deleted s'"
    by blast
  from 0 have d: "\<exists>s0. SelfDeletingTimer_start (factory 0 5) = Returns s0 \<and> pc s0 = Entry
      \<and> m_interval s0 = 5"
    by blast
  have e: "elapsed [Step, Elapse 3] < 5" by simp
  from d b e c show ?thesis by (intro conjI)
qed

section \<open>Facts about UnionFind\<close>

lemma root_of_is_root: "root_of m a r \<Longrightarrow> m r = None"
  by (induction rule: root_of.induct) auto

lemma root_of_root:
  assumes "m r = None"
  shows "root_of m r y \<longleftrightarrow> y = r"
proof
  assume "root_of m r y"
  then show "y = r" using assms by cases simp_all
next
  assume "y = r"
  with assms show "root_of m r y" by (simp add: root_of.here)
qed

lemma root_of_father:
  assumes "m a = Some p"
  shows "root_of m a r \<longleftrightarrow> root_of m p r"
proof
  assume "root_of m a r"
  then show "root_of m p r" using assms by cases simp_all
next
  assume "root_of m p r"
  with assms show "root_of m a r" by (rule root_of.up)
qed

lemma root_of_unique: "root_of m a r \<Longrightarrow> root_of m a r' \<Longrightarrow> r = r'"
proof (induction arbitrary: r' rule: root_of.induct)
  case (here a)
  then show ?case by (simp add: root_of_root)
next
  case (up a p r)
  then show ?case by (simp add: root_of_father)
qed

lemma shortensD:
  "shortens m m' \<Longrightarrow> m' x = m x \<or> (\<exists>r. m x \<noteq> None \<and> root_of m x r \<and> m' x = Some r)"
  by (simp add: shortens_def)

lemma shortens_None: "shortens m m' \<Longrightarrow> m' x = None \<longleftrightarrow> m x = None"
  using shortensD [of m m' x] by auto

lemma shortens_root_of_1:
  assumes "shortens m m'" and "root_of m x y"
  shows "root_of m' x y"
  using assms(2)
proof (induction rule: root_of.induct)
  case (here a)
  with assms(1) have "m' a = None" by (simp add: shortens_None)
  then show ?case by (rule root_of.here)
next
  case (up a p r)
  from shortensD [OF assms(1), of a]
  consider "m' a = m a" | r' where "root_of m a r'" "m' a = Some r'"
    by blast
  then show ?case
  proof cases
    case 1
    with up show ?thesis by (simp add: root_of_father)
  next
    case 2
    from up.hyps have "root_of m a r" by (simp add: root_of_father)
    with 2 have "r' = r" by (simp add: root_of_unique)
    from up.hyps(2) have "m r = None" by (rule root_of_is_root)
    with assms(1) have "m' r = None" by (simp add: shortens_None)
    then have "root_of m' r r" by (rule root_of.here)
    with 2 \<open>r' = r\<close> show ?thesis by (simp add: root_of_father)
  qed
qed

lemma shortens_root_of_2:
  assumes "shortens m m'" and "root_of m' x y"
  shows "root_of m x y"
  using assms(2)
proof (induction rule: root_of.induct)
  case (here a)
  with assms(1) have "m a = None" by (simp add: shortens_None)
  then show ?case by (rule root_of.here)
next
  case (up a p r)
  from shortensD [OF assms(1), of a] up.hyps(1)
  consider "m a = Some p" | "root_of m a p"
    by auto
  then show ?case
  proof cases
    case 1
    with up show ?thesis by (simp add: root_of_father)
  next
    case 2
    then have "m p = None" by (rule root_of_is_root)
    with up.IH have "r = p" by (simp add: root_of_root)
    with 2 show ?thesis by simp
  qed
qed

lemma shortens_root_of:
  assumes "shortens m m'"
  shows "root_of m' x y \<longleftrightarrow> root_of m x y"
proof
  assume "root_of m' x y"
  with assms show "root_of m x y" by (rule shortens_root_of_2)
next
  assume "root_of m x y"
  with assms show "root_of m' x y" by (rule shortens_root_of_1)
qed

lemma shortens_refl: "shortens m m"
  by (simp add: shortens_def)

lemma UnionFind_find_spec:
  assumes "root_of (m_mapping u) a r"
  shows "\<exists>u'. UnionFind_find u a = Some (r, u') \<and> shortens (m_mapping u) (m_mapping u')"
  using assms
proof (induction rule: root_of.induct)
  case (here a)
  then have "UnionFind_find u a = Some (a, u)"
    by (subst UnionFind_find.simps) simp
  then show ?case by (simp add: shortens_refl)
next
  case (up a p r)
  then obtain u1 where u1: "UnionFind_find u p = Some (r, u1)"
    and sh: "shortens (m_mapping u) (m_mapping u1)" by blast
  let ?u' = "u1\<lparr>m_mapping := (m_mapping u1)(a \<mapsto> r)\<rparr>"
  from up.hyps(1) u1 have "UnionFind_find u a = Some (r, ?u')"
    by (subst UnionFind_find.simps) simp
  moreover from up.hyps have "root_of (m_mapping u) a r" by (simp add: root_of_father)
  then have "shortens (m_mapping u) (m_mapping ?u')"
    unfolding shortens_def
  proof (intro allI)
    fix x
    assume ra: "root_of (m_mapping u) a r"
    show "m_mapping ?u' x = m_mapping u x \<or>
        (\<exists>r. m_mapping u x \<noteq> None \<and> root_of (m_mapping u) x r \<and> m_mapping ?u' x = Some r)"
    proof (cases "x = a")
      case True
      with ra up.hyps(1) show ?thesis by auto
    next
      case False
      with shortensD [OF sh, of x] show ?thesis by simp
    qed
  qed
  ultimately show ?case by blast
qed

lemma link_root_of_1:
  assumes "m ra = None" and "m rb = None" and "ra \<noteq> rb" and "root_of m x z"
  shows "root_of (m(rb \<mapsto> ra)) x (if z = rb then ra else z)"
  using assms(4)
proof (induction rule: root_of.induct)
  case (here a)
  show ?case
  proof (cases "a = rb")
    case True
    from assms(1,3) have "root_of (m(rb \<mapsto> ra)) ra ra" by (simp add: root_of.here)
    then have "root_of (m(rb \<mapsto> ra)) rb ra" by (simp add: root_of_father)
    then show ?thesis unfolding True by (simp only: simp_thms if_True)
  next
    case False
    with here show ?thesis by (simp add: root_of.here)
  qed
next
  case (up a p r)
  from up.hyps(1) assms(2) have "a \<noteq> rb" by auto
  with up.hyps(1) have "(m(rb \<mapsto> ra)) a = Some p" by simp
  with up.IH show ?case by (simp add: root_of_father)
qed

lemma link_root_of_2:
  assumes "m ra = None" and "m rb = None" and "ra \<noteq> rb" and "m' = m(rb \<mapsto> ra)"
    and "root_of m' x y"
  shows "if root_of m x rb then y = ra else root_of m x y"
  using assms(5)
proof (induction rule: root_of.induct)
  case (here a)
  with assms(4) have "a \<noteq> rb" and "m a = None" by (auto split: if_splits)
  with assms(2) show ?case by (simp add: root_of_root)
next
  case (up a p r)
  show ?case
  proof (cases "a = rb")
    case True
    with up.hyps(1) assms(4) have "p = ra" by simp
    with up.IH assms(1,3) have "r = ra" by (simp add: root_of_root)
    with True assms(2) show ?thesis by (simp add: root_of_root)
  next
    case False
    with up.hyps(1) assms(4) have "m a = Some p" by simp
    with up.IH show ?thesis by (simp add: root_of_father)
  qed
qed

lemma link_root_of:
  assumes "m ra = None" and "m rb = None" and "ra \<noteq> rb"
  shows "root_of (m(rb \<mapsto> ra)) x y \<longleftrightarrow> (if root_of m x rb then y = ra else root_of m x y)"
proof
  assume "root_of (m(rb \<mapsto> ra)) x y"
  with assms refl show "if root_of m x rb then y = ra else root_of m x y"
    by (rule link_root_of_2)
next
  assume r: "if root_of m x rb then y = ra else root_of m x y"
  show "root_of (m(rb \<mapsto> ra)) x y"
  proof (cases "root_of m x rb")
    case True
    with assms have "root_of (m(rb \<mapsto> ra)) x (if rb = rb then ra else rb)"
      by (rule link_root_of_1)
    with True r show ?thesis by simp
  next
    case False
    with r have xy: "root_of m x y" by simp
    with assms have "root_of (m(rb \<mapsto> ra)) x (if y = rb then ra else y)"
      by (rule link_root_of_1)
    moreover from False xy have "y \<noteq> rb" by auto
    ultimately show ?thesis by simp
  qed
qed

lemma within_root: "root_of m x r \<Longrightarrow> within S m \<Longrightarrow> x \<in> S \<Longrightarrow> r \<in> S"
  by (induction rule: root_of.induct) (simp_all add: within_def)

lemma within_shortens:
  assumes "within S m" and "shortens m m'"
  shows "within S m'"
  unfolding within_def
proof (intro allI impI)
  fix x p
  assume x: "m' x = Some p"
  from shortensD [OF assms(2), of x] x
  consider "m x = Some p" | y where "m x = Some y" "root_of m x p"
    by auto
  then show "x \<in> S \<and> p \<in> S"
  proof cases
    case 1
    with assms(1) show ?thesis by (simp add: within_def)
  next
    case 2
    from 2(1) assms(1) have "x \<in> S" by (simp add: within_def)
    with 2(2) assms(1) show ?thesis by (simp add: within_root)
  qed
qed

lemma within_mono: "within S m \<Longrightarrow> S \<subseteq> S' \<Longrightarrow> within S' m"
  unfolding within_def by (meson subsetD)

lemma root_of_root_eq: "root_of (m_mapping u) a r \<Longrightarrow> root u a = Some r"
  using UnionFind_find_spec [of u a r] by (auto simp: root_def)

lemma rooted_root_iff:
  assumes "rooted u"
  shows "root u a = Some r \<longleftrightarrow> root_of (m_mapping u) a r"
proof
  assume "root_of (m_mapping u) a r"
  then show "root u a = Some r" by (rule root_of_root_eq)
next
  assume r: "root u a = Some r"
  from assms obtain r' where r': "root_of (m_mapping u) a r'"
    unfolding rooted_def by blast
  with r root_of_root_eq [OF r'] show "root_of (m_mapping u) a r" by simp
qed

lemma shortens_rooted:
  assumes "rooted u" and "shortens (m_mapping u) (m_mapping u')"
  shows "rooted u'" and "root u' x = root u x"
proof -
  from assms show u': "rooted u'"
    by (simp add: rooted_def shortens_root_of)
  from assms(1) obtain r where r: "root_of (m_mapping u) x r"
    unfolding rooted_def by blast
  with assms(2) have "root_of (m_mapping u') x r" by (simp add: shortens_root_of)
  with r show "root u' x = root u x" by (simp add: root_of_root_eq)
qed

lemma UnionFind_merge_spec:
  assumes a: "root_of (m_mapping u) a ra" and b: "root_of (m_mapping u) b rb"
  shows "\<exists>u'. UnionFind_merge u a b = Some u'
    \<and> (\<forall>x y. root_of (m_mapping u') x y \<longleftrightarrow>
          (if root_of (m_mapping u) x rb then y = ra else root_of (m_mapping u) x y))
    \<and> (\<forall>S. within S (m_mapping u) \<and> a \<in> S \<and> b \<in> S \<longrightarrow> within S (m_mapping u'))"
proof -
  from UnionFind_find_spec [OF a] obtain u1
    where f1: "UnionFind_find u a = Some (ra, u1)"
      and s1: "shortens (m_mapping u) (m_mapping u1)" by blast
  from b s1 have b1: "root_of (m_mapping u1) b rb" by (simp add: shortens_root_of)
  from UnionFind_find_spec [OF b1] obtain u2
    where f2: "UnionFind_find u1 b = Some (rb, u2)"
      and s2: "shortens (m_mapping u1) (m_mapping u2)" by blast
  have eq: "root_of (m_mapping u2) x y \<longleftrightarrow> root_of (m_mapping u) x y" for x y
    using s1 s2 by (simp add: shortens_root_of)
  from a have na: "m_mapping u2 ra = None" by (simp add: eq [symmetric] root_of_is_root)
  from b have nb: "m_mapping u2 rb = None" by (simp add: eq [symmetric] root_of_is_root)
  have w2: "within S (m_mapping u2)" if "within S (m_mapping u)" for S
    using that s1 s2 by (blast intro: within_shortens)
  show ?thesis
  proof (cases "ra = rb")
    case True
    with f1 f2 have "UnionFind_merge u a b = Some u2"
      by (simp add: UnionFind_merge_def)
    moreover have "root_of (m_mapping u2) x y \<longleftrightarrow>
        (if root_of (m_mapping u) x rb then y = ra else root_of (m_mapping u) x y)" for x y
      using True root_of_unique [of "m_mapping u" x rb y] by (auto simp: eq)
    ultimately show ?thesis using w2 by simp
  next
    case False
    let ?u' = "u2\<lparr>m_mapping := (m_mapping u2)(rb \<mapsto> ra)\<rparr>"
    from False f1 f2 nb have "UnionFind_merge u a b = Some ?u'"
      by (simp add: UnionFind_merge_def emplace_def)
    moreover have "root_of (m_mapping ?u') x y \<longleftrightarrow>
        (if root_of (m_mapping u) x rb then y = ra else root_of (m_mapping u) x y)" for x y
      using link_root_of [OF na nb False, of x y] by (simp add: eq)
    moreover have "within S (m_mapping ?u')" if w: "within S (m_mapping u)" and "a \<in> S" and "b \<in> S" for S
    proof -
      from a w \<open>a \<in> S\<close> have "ra \<in> S" by (rule within_root)
      moreover from b w \<open>b \<in> S\<close> have "rb \<in> S" by (rule within_root)
      moreover from w have "within S (m_mapping u2)" by (rule w2)
      ultimately show ?thesis by (simp add: within_def)
    qed
    ultimately show ?thesis by simp
  qed
qed

lemma rooted_obtain:
  assumes "rooted u"
  obtains r where "root_of (m_mapping u) a r"
  using assms unfolding rooted_def by blast

lemma UnionFind_merge_rooted:
  assumes u: "rooted u" and a: "root_of (m_mapping u) a ra" and b: "root_of (m_mapping u) b rb"
  shows "\<exists>u'. UnionFind_merge u a b = Some u' \<and> rooted u'
    \<and> root_of (m_mapping u') a ra \<and> root_of (m_mapping u') b ra
    \<and> (ra = rb \<longrightarrow> (\<forall>x. root u' x = root u x))
    \<and> (\<forall>S. within S (m_mapping u) \<and> a \<in> S \<and> b \<in> S \<longrightarrow> within S (m_mapping u'))"
proof -
  from UnionFind_merge_spec [OF a b] obtain u'
    where m: "UnionFind_merge u a b = Some u'"
      and r: "\<And>x y. root_of (m_mapping u') x y \<longleftrightarrow>
          (if root_of (m_mapping u) x rb then y = ra else root_of (m_mapping u) x y)"
      and w: "\<forall>S. within S (m_mapping u) \<and> a \<in> S \<and> b \<in> S \<longrightarrow> within S (m_mapping u')"
    by blast
  have "\<exists>y. root_of (m_mapping u') x y" for x
  proof -
    from u obtain z where "root_of (m_mapping u) x z" by (rule rooted_obtain)
    then show ?thesis by (cases "root_of (m_mapping u) x rb") (auto simp: r)
  qed
  then have 1: "rooted u'" by (simp add: rooted_def)
  from a have 2: "root_of (m_mapping u') a ra"
    using root_of_unique [of "m_mapping u" a ra rb] by (auto simp: r)
  from b have 3: "root_of (m_mapping u') b ra" by (simp add: r)
  have 4: "root u' x = root u x" if "ra = rb" for x
  proof -
    from u obtain z where z: "root_of (m_mapping u) x z" by (rule rooted_obtain)
    with that have "root_of (m_mapping u') x z"
      using root_of_unique [of "m_mapping u" x rb z] by (auto simp: r)
    with z show ?thesis by (simp add: root_of_root_eq)
  qed
  from m 1 2 3 4 w show ?thesis by simp
qed

lemma uf_apply_invariant:
  assumes u: "rooted u" and w: "within S (m_mapping u)"
  shows "\<exists>u'. uf_apply c u = Some u' \<and> rooted u' \<and> within (S \<union> merged c) (m_mapping u')"
proof (cases c)
  case (Find a)
  from u obtain r where "root_of (m_mapping u) a r" by (rule rooted_obtain)
  from UnionFind_find_spec [OF this] obtain u'
    where f: "UnionFind_find u a = Some (r, u')"
      and s: "shortens (m_mapping u) (m_mapping u')" by blast
  from u s have "rooted u'" by (rule shortens_rooted)
  moreover from w s have "within S (m_mapping u')" by (rule within_shortens)
  ultimately show ?thesis using Find f by simp
next
  case (Merge a b)
  from u obtain ra where a: "root_of (m_mapping u) a ra" by (rule rooted_obtain)
  from u obtain rb where b: "root_of (m_mapping u) b rb" by (rule rooted_obtain)
  from w have "within (S \<union> {a, b}) (m_mapping u)" by (rule within_mono) auto
  with UnionFind_merge_rooted [OF u a b] Merge show ?thesis by auto
qed

lemma uf_calls_invariant:
  assumes "rooted u" and "within S (m_mapping u)"
  shows "\<exists>u'. uf_calls cs u = Some u' \<and> rooted u'
    \<and> within (S \<union> \<Union> (merged ` set cs)) (m_mapping u')"
  using assms
proof (induction cs arbitrary: u S)
  case Nil
  then show ?case by simp
next
  case (Cons c cs)
  from uf_apply_invariant [OF Cons.prems, of c] obtain u1
    where 1: "uf_apply c u = Some u1" and "rooted u1"
      and "within (S \<union> merged c) (m_mapping u1)" by blast
  from Cons.IH [OF this(2,3)] obtain u'
    where "uf_calls cs u1 = Some u'" and "rooted u'"
      and "within (S \<union> merged c \<union> \<Union> (merged ` set cs)) (m_mapping u')" by blast
  with 1 show ?case by (simp add: Un_assoc)
qed

lemma UnionFind_new_invariant: "rooted UnionFind_new" "within {} (m_mapping UnionFind_new)"
proof -
  have "root_of (m_mapping UnionFind_new) a a" for a :: 'a
    by (simp add: UnionFind_new_def root_of.here)
  then show "rooted (UnionFind_new :: 'a UnionFind)" unfolding rooted_def by blast
  show "within {} (m_mapping UnionFind_new)"
    by (simp add: within_def UnionFind_new_def)
qed

text \<open>
  C9. Every sequence of \<open>find\<close> and \<open>merge\<close> calls on a new structure returns,
  and on the structure \<open>u\<close> that it leaves: \<open>merge(a, b)\<close> returns and then \<open>find(a)\<close>
  followed by \<open>find(b)\<close> return one and the same root; where \<open>a\<close> and \<open>b\<close> have the
  same root already, \<open>merge(a, b)\<close> leaves the root of every element as it was, and so
  does a second \<open>merge(a, b)\<close> after a first; \<open>find(c)\<close> on the new structure, and on
  \<open>u\<close> for a \<open>c\<close> that no \<open>merge\<close> was given, returns \<open>c\<close> and changes nothing;
  \<open>find(c)\<close> leaves the root of every element, hence the components, as they were, and
  every father it leaves is the old father or the root.
\<close>

theorem UnionFind_merge_find_partition:
  "\<exists>u. uf_calls cs UnionFind_new = Some u
     \<and> (\<exists>u' r u1 u2. UnionFind_merge u a b = Some u'
           \<and> UnionFind_find u' a = Some (r, u1) \<and> UnionFind_find u1 b = Some (r, u2))
     \<and> (root u a = root u b \<longrightarrow>
           (\<exists>u'. UnionFind_merge u a b = Some u' \<and> (\<forall>x. root u' x = root u x)))
     \<and> (\<exists>u' u''. UnionFind_merge u a b = Some u' \<and> UnionFind_merge u' a b = Some u''
           \<and> (\<forall>x. root u'' x = root u' x))
     \<and> UnionFind_find UnionFind_new c = Some (c, UnionFind_new)
     \<and> (c \<notin> \<Union> (merged ` set cs) \<longrightarrow> UnionFind_find u c = Some (c, u))
     \<and> (\<exists>r u'. UnionFind_find u c = Some (r, u')
           \<and> (\<forall>x. root u' x = root u x)
           \<and> (\<forall>x y. root u' x = root u' y \<longleftrightarrow> root u x = root u y)
           \<and> (\<forall>x p. m_mapping u' x = Some p \<longrightarrow>
                 m_mapping u x = Some p \<or> (m_mapping u x \<noteq> None \<and> root u x = Some p)))"
proof -
  from uf_calls_invariant [OF UnionFind_new_invariant, of cs] obtain u
    where calls: "uf_calls cs UnionFind_new = Some u" and u: "rooted u"
      and w: "within (\<Union> (merged ` set cs)) (m_mapping u)" by auto
  from u obtain ra where a: "root_of (m_mapping u) a ra" by (rule rooted_obtain)
  from u obtain rb where b: "root_of (m_mapping u) b rb" by (rule rooted_obtain)
  from UnionFind_merge_rooted [OF u a b] obtain u'
    where m: "UnionFind_merge u a b = Some u'" and u': "rooted u'"
      and a': "root_of (m_mapping u') a ra" and b': "root_of (m_mapping u') b ra"
      and same: "ra = rb \<longrightarrow> (\<forall>x. root u' x = root u x)" by blast
  have 1: "\<exists>u' r u1 u2. UnionFind_merge u a b = Some u'
      \<and> UnionFind_find u' a = Some (r, u1) \<and> UnionFind_find u1 b = Some (r, u2)"
  proof -
    from UnionFind_find_spec [OF a'] obtain u1
      where f1: "UnionFind_find u' a = Some (ra, u1)"
        and s1: "shortens (m_mapping u') (m_mapping u1)" by blast
    from b' s1 have "root_of (m_mapping u1) b ra" by (simp add: shortens_root_of)
    from UnionFind_find_spec [OF this] obtain u2
      where "UnionFind_find u1 b = Some (ra, u2)" by blast
    with m f1 show ?thesis by blast
  qed
  have 2: "root u a = root u b \<longrightarrow>
      (\<exists>u'. UnionFind_merge u a b = Some u' \<and> (\<forall>x. root u' x = root u x))"
  proof
    assume "root u a = root u b"
    with a b have "ra = rb" by (simp add: root_of_root_eq)
    with m same show "\<exists>u'. UnionFind_merge u a b = Some u' \<and> (\<forall>x. root u' x = root u x)"
      by blast
  qed
  have 3: "\<exists>u' u''. UnionFind_merge u a b = Some u' \<and> UnionFind_merge u' a b = Some u''
      \<and> (\<forall>x. root u'' x = root u' x)"
  proof -
    from UnionFind_merge_rooted [OF u' a' b'] obtain u''
      where "UnionFind_merge u' a b = Some u''" and "\<forall>x. root u'' x = root u' x" by blast
    with m show ?thesis by blast
  qed
  have 4: "UnionFind_find UnionFind_new c = Some (c, UnionFind_new)"
    by (subst UnionFind_find.simps) (simp add: UnionFind_new_def)
  have 5: "c \<notin> \<Union> (merged ` set cs) \<longrightarrow> UnionFind_find u c = Some (c, u)"
  proof
    assume "c \<notin> \<Union> (merged ` set cs)"
    with w have "m_mapping u c = None"
      unfolding within_def by (cases "m_mapping u c") auto
    then show "UnionFind_find u c = Some (c, u)"
      by (subst UnionFind_find.simps) simp
  qed
  have 6: "\<exists>r u'. UnionFind_find u c = Some (r, u')
      \<and> (\<forall>x. root u' x = root u x)
      \<and> (\<forall>x y. root u' x = root u' y \<longleftrightarrow> root u x = root u y)
      \<and> (\<forall>x p. m_mapping u' x = Some p \<longrightarrow>
            m_mapping u x = Some p \<or> (m_mapping u x \<noteq> None \<and> root u x = Some p))"
  proof -
    from u obtain r where "root_of (m_mapping u) c r" by (rule rooted_obtain)
    from UnionFind_find_spec [OF this] obtain v
      where f: "UnionFind_find u c = Some (r, v)"
        and s: "shortens (m_mapping u) (m_mapping v)" by blast
    have r: "root v x = root u x" for x
      using u s by (rule shortens_rooted)
    have "m_mapping u x = Some p \<or> (m_mapping u x \<noteq> None \<and> root u x = Some p)"
      if "m_mapping v x = Some p" for x p
      using shortensD [OF s, of x] that by (auto simp: root_of_root_eq)
    with f r show ?thesis by simp
  qed
  from calls 1 2 3 4 5 6 show ?thesis by blast
qed

theorem UnionFind_merge_find_partition_witness:
  "\<exists>u. uf_calls [Merge (1::nat) 2, Merge 3 4, Find 2] UnionFind_new = Some u
     \<and> u = \<lparr>m_mapping = [4 \<mapsto> 3, 2 \<mapsto> 1]\<rparr>
     \<and> (\<exists>u' r u1 u2. UnionFind_merge u 2 4 = Some u'
           \<and> UnionFind_find u' 2 = Some (r, u1) \<and> UnionFind_find u1 4 = Some (r, u2))
     \<and> root u 1 = root u 2
     \<and> (\<exists>u'. UnionFind_merge u 1 2 = Some u' \<and> (\<forall>x. root u' x = root u x))
     \<and> 5 \<notin> \<Union> (merged ` set [Merge (1::nat) 2, Merge 3 4, Find 2])
     \<and> UnionFind_find u 5 = Some (5, u)"
proof -
  have calls: "uf_calls [Merge (1::nat) 2, Merge 3 4, Find 2] UnionFind_new
      = Some \<lparr>m_mapping = [4 \<mapsto> 3, 2 \<mapsto> 1]\<rparr>"
    by (simp add: UnionFind_merge_def UnionFind_find.simps emplace_def UnionFind_new_def)
  have same: "root \<lparr>m_mapping = [4 \<mapsto> 3, 2 \<mapsto> (1::nat)]\<rparr> 1 = root \<lparr>m_mapping = [4 \<mapsto> 3, 2 \<mapsto> 1]\<rparr> 2"
    by (simp add: root_def UnionFind_find.simps)
  have fresh: "5 \<notin> \<Union> (merged ` set [Merge (1::nat) 2, Merge 3 4, Find 2])"
    by simp
  from UnionFind_merge_find_partition
    [of "[Merge (1::nat) 2, Merge 3 4, Find 2]" 2 4 5]
  have "\<exists>u' r u1 u2. UnionFind_merge \<lparr>m_mapping = [4 \<mapsto> 3, 2 \<mapsto> (1::nat)]\<rparr> 2 4 = Some u'
      \<and> UnionFind_find u' 2 = Some (r, u1) \<and> UnionFind_find u1 4 = Some (r, u2)"
    and "UnionFind_find \<lparr>m_mapping = [4 \<mapsto> 3, 2 \<mapsto> (1::nat)]\<rparr> 5
      = Some (5, \<lparr>m_mapping = [4 \<mapsto> 3, 2 \<mapsto> 1]\<rparr>)"
    using fresh unfolding calls by blast+
  moreover from UnionFind_merge_find_partition
    [of "[Merge (1::nat) 2, Merge 3 4, Find 2]" 1 2 5]
  have "\<exists>u'. UnionFind_merge \<lparr>m_mapping = [4 \<mapsto> 3, 2 \<mapsto> (1::nat)]\<rparr> 1 2 = Some u'
      \<and> (\<forall>x. root u' x = root \<lparr>m_mapping = [4 \<mapsto> 3, 2 \<mapsto> 1]\<rparr> x)"
    using same unfolding calls by blast
  ultimately show ?thesis using calls same fresh by blast
qed

section \<open>Facts about the singleton helper\<close>

lemma exists_after_calls:
  "singleton (fold singleton_apply cs s) = None \<longleftrightarrow>
     (if list_ex is_Init cs then list_ex (\<lambda>c. c = Kill) (since_last_init cs)
      else singleton s = None \<or> list_ex (\<lambda>c. c = Kill) cs)"
proof (induction cs arbitrary: s rule: rev_induct)
  case Nil
  then show ?case by (simp add: since_last_init_def)
next
  case (snoc c cs)
  show ?case
    by (cases c)
       (simp_all add: snoc since_last_init_def Singleton_init_def Singleton_kill_def)
qed

text \<open>
  C10. After any sequence of calls on the static state, \<open>get()\<close> throws exactly when
  no instance exists, that is when \<open>init()\<close> was never called or \<open>kill()\<close> was called
  since the last \<open>init()\<close>; on any state, \<open>get()\<close> throws exactly when
  \<open>initialized()\<close> is false; after \<open>init\<close>, \<open>get()\<close> returns the object that
  \<open>init\<close> returned and \<open>initialized()\<close> is true; after \<open>kill()\<close>, \<open>get()\<close> throws.
\<close>

theorem Singleton_get_raises_iff_no_instance:
  "((\<exists>e. Singleton_get (fold singleton_apply cs Singleton_static) = Inl e) \<longleftrightarrow> no_instance cs)
   \<and> ((\<exists>e. Singleton_get s = Inl e) \<longleftrightarrow> \<not> Singleton_initialized s)
   \<and> Singleton_get (snd (Singleton_init obj s)) = Inr (fst (Singleton_init obj s))
   \<and> fst (Singleton_init obj s) = obj
   \<and> Singleton_initialized (snd (Singleton_init obj s))
   \<and> (\<exists>e. Singleton_get (Singleton_kill s) = Inl e)
   \<and> \<not> Singleton_initialized (Singleton_kill s)"
proof -
  have "singleton (fold singleton_apply cs Singleton_static) = None \<longleftrightarrow> no_instance cs"
    unfolding exists_after_calls no_instance_def
    by (auto simp: Singleton_static_def since_last_init_def list_ex_iff
        dest: set_takeWhileD)
  then have "(\<exists>e. Singleton_get (fold singleton_apply cs Singleton_static) = Inl e) \<longleftrightarrow> no_instance cs"
    by (auto simp: Singleton_get_def split: option.splits)
  moreover have "(\<exists>e. Singleton_get s = Inl e) \<longleftrightarrow> \<not> Singleton_initialized s"
    by (auto simp: Singleton_get_def Singleton_initialized_def split: option.splits)
  ultimately show ?thesis
    by (simp add: Singleton_get_def Singleton_init_def Singleton_initialized_def Singleton_kill_def)
qed

theorem Singleton_get_raises_iff_no_instance_witness:
  "((\<exists>e. Singleton_get (fold singleton_apply [Init (1::nat), Kill, Init 2, Get] Singleton_static) = Inl e)
      \<longleftrightarrow> no_instance [Init (1::nat), Kill, Init 2, Get])
   \<and> Singleton_get (fold singleton_apply [Init (1::nat), Kill, Init 2, Get] Singleton_static) = Inr 2
   \<and> no_instance [Init (1::nat), Get, Kill, Initialized]
   \<and> (\<exists>e. Singleton_get (fold singleton_apply [Init (1::nat), Get, Kill, Initialized] Singleton_static) = Inl e)"
  using Singleton_get_raises_iff_no_instance [of "[Init (1::nat), Kill, Init 2, Get]"]
    Singleton_get_raises_iff_no_instance [of "[Init (1::nat), Get, Kill, Initialized]"]
  by (simp add: no_instance_def since_last_init_def Singleton_get_def Singleton_init_def
      Singleton_kill_def Singleton_static_def)

end
